theory Spec2Isabelle
  imports Main
begin

section \<open>The program: an explicit-stack search with a memo table (main.c)\<close>

subsection \<open>Constants and machine integers\<close>

text \<open>
  The capacities are the macros of the source. The stack array holds
  \<open>3 * MAX_DEPTH_STACK\<close> integers.
\<close>

abbreviation MAX_DEPTH_X :: int where "MAX_DEPTH_X \<equiv> 501"
abbreviation MAX_DEPTH_Y :: int where "MAX_DEPTH_Y \<equiv> 101"
abbreviation MAX_DEPTH_Z :: int where "MAX_DEPTH_Z \<equiv> 101"
abbreviation MAX_DEPTH_STACK :: nat where "MAX_DEPTH_STACK \<equiv> 501 * 101 * 101"
abbreviation STACK_SLOTS :: nat where "STACK_SLOTS \<equiv> 3 * MAX_DEPTH_STACK"

abbreviation INT_MAX :: int where "INT_MAX \<equiv> 2147483647"
abbreviation INT_MIN :: int where "INT_MIN \<equiv> - 2147483648"

text \<open>
  A C \<open>int\<close> is a 32-bit two's-complement value. It is modelled as an \<open>int\<close> in the
  range \<open>INT_MIN .. INT_MAX\<close>. The source adds without a check; C leaves a signed sum
  outside the range undefined, and the model takes the result that two's-complement
  hardware computes: the sum wraps around modulo \<open>2 ^ 32\<close>.
\<close>

definition int_wrap :: "int \<Rightarrow> int" where
  "int_wrap v = (v + 2147483648) mod 4294967296 - 2147483648"

definition int_add :: "int \<Rightarrow> int \<Rightarrow> int" where
  "int_add a b = int_wrap (a + b)"

subsection \<open>Errors\<close>

text \<open>
  The source checks nothing. Every access outside an array is a branch of the model:
  a push on a full stack, a pop from an empty one, a cell outside the memo table, an
  index outside \<open>prices\<close> or \<open>calories\<close>.
\<close>

datatype error = StackOverflow | StackUnderflow | TableOutOfBounds | ArrayOutOfBounds

definition bind_err :: "error + 'a \<Rightarrow> ('a \<Rightarrow> error + 'b) \<Rightarrow> error + 'b" where
  "bind_err m f = (case m of Inl e \<Rightarrow> Inl e | Inr v \<Rightarrow> f v)"

subsection \<open>The traversal stack\<close>

record dfs_stack =
  offset :: nat
  data :: "nat \<Rightarrow> int"

definition dfs_stack_push :: "dfs_stack \<Rightarrow> int \<Rightarrow> error + dfs_stack" where
  "dfs_stack_push st item =
     (if offset st < STACK_SLOTS
      then Inr (st\<lparr>data := (data st)(offset st := item), offset := offset st + 1\<rparr>)
      else Inl StackOverflow)"

definition dfs_stack_pop :: "dfs_stack \<Rightarrow> error + (int \<times> dfs_stack)" where
  "dfs_stack_pop st =
     (if offset st = 0 then Inl StackUnderflow
      else if STACK_SLOTS < offset st then Inl StackOverflow
      else Inr (data st (offset st - 1), st\<lparr>offset := offset st - 1\<rparr>))"

text \<open>
  The source pushes a state as three integers, \<open>z\<close> first and \<open>x\<close> last, and pops it
  as \<open>x\<close>, \<open>y\<close>, \<open>z\<close>.
\<close>

definition push_state :: "dfs_stack \<Rightarrow> int \<Rightarrow> int \<Rightarrow> int \<Rightarrow> error + dfs_stack" where
  "push_state st x y z =
     bind_err (dfs_stack_push st z) (\<lambda>st1.
     bind_err (dfs_stack_push st1 y) (\<lambda>st2.
     dfs_stack_push st2 x))"

definition pop_state :: "dfs_stack \<Rightarrow> error + ((int \<times> int \<times> int) \<times> dfs_stack)" where
  "pop_state st =
     bind_err (dfs_stack_pop st) (\<lambda>(x, st1).
     bind_err (dfs_stack_pop st1) (\<lambda>(y, st2).
     bind_err (dfs_stack_pop st2) (\<lambda>(z, st3).
     Inr ((x, y, z), st3))))"

subsection \<open>The memo table and the item arrays\<close>

datatype memo_item = Unknown | BadPath

type_synonym cell = "int \<times> int \<times> int"

type_synonym memo_table = "cell \<Rightarrow> memo_item"

definition in_table :: "cell \<Rightarrow> bool" where
  "in_table c = (case c of (x, y, z) \<Rightarrow>
     0 \<le> x \<and> x < MAX_DEPTH_X \<and> 0 \<le> y \<and> y < MAX_DEPTH_Y \<and> 0 \<le> z \<and> z < MAX_DEPTH_Z)"

definition table_get :: "memo_table \<Rightarrow> int \<Rightarrow> int \<Rightarrow> int \<Rightarrow> error + memo_item" where
  "table_get tb x y z = (if in_table (x, y, z) then Inr (tb (x, y, z)) else Inl TableOutOfBounds)"

definition table_set :: "memo_table \<Rightarrow> int \<Rightarrow> int \<Rightarrow> int \<Rightarrow> memo_item \<Rightarrow> error + memo_table" where
  "table_set tb x y z v =
     (if in_table (x, y, z) then Inr (tb((x, y, z) := v)) else Inl TableOutOfBounds)"

definition array_get :: "int list \<Rightarrow> int \<Rightarrow> error + int" where
  "array_get xs i = (if 0 \<le> i \<and> nat i < length xs then Inr (xs ! nat i) else Inl ArrayOutOfBounds)"

subsection \<open>The search\<close>

text \<open>The two globals of the source: the stack and the memo table.\<close>

record globals =
  stack :: dfs_stack
  table :: memo_table

text \<open>
  The source pushes the Buy successor, then the Skip successor. The other order is the
  variant that the specification compares it with.
\<close>

datatype push_order = BuyThenSkip | SkipThenBuy

text \<open>What one run of the loop body does: it returns from \<open>solve\<close>, or it goes on.\<close>

datatype outcome = Return bool | Continue globals

text \<open>Lines 101 to 117: the successors of the state \<open>(x, y, z)\<close> are pushed.\<close>

definition push_buy ::
  "int \<Rightarrow> int \<Rightarrow> dfs_stack \<Rightarrow> int \<Rightarrow> int \<Rightarrow> int \<Rightarrow> error + dfs_stack" where
  "push_buy j k st new_x new_y new_z =
     (if new_y \<le> j \<and> new_z \<le> k then push_state st new_x new_y new_z else Inr st)"

definition expand ::
  "push_order \<Rightarrow> int \<Rightarrow> int \<Rightarrow> int \<Rightarrow> int list \<Rightarrow> int list \<Rightarrow> dfs_stack \<Rightarrow>
   int \<Rightarrow> int \<Rightarrow> int \<Rightarrow> error + dfs_stack" where
  "expand ord n j k prices calories st x y z =
     (let new_x = int_add x 1 in
      if new_x \<le> n then
        bind_err (array_get prices x) (\<lambda>p.
        bind_err (array_get calories x) (\<lambda>c.
          let new_y = int_add y p; new_z = int_add z c in
          case ord of
            BuyThenSkip \<Rightarrow>
              bind_err (push_buy j k st new_x new_y new_z) (\<lambda>st1.
              push_state st1 new_x y z)
          | SkipThenBuy \<Rightarrow>
              bind_err (push_state st new_x y z) (\<lambda>st1.
              push_buy j k st1 new_x new_y new_z)))
      else Inr st)"

text \<open>Lines 91 to 119: one run of the body of the \<open>while\<close> loop.\<close>

definition loop_body ::
  "push_order \<Rightarrow> int \<Rightarrow> int \<Rightarrow> int \<Rightarrow> int list \<Rightarrow> int list \<Rightarrow> globals \<Rightarrow> error + outcome" where
  "loop_body ord n j k prices calories s =
     bind_err (pop_state (stack s)) (\<lambda>((x, y, z), st).
       if x = n \<and> y = j \<and> z = k then Inr (Return True)
       else
         bind_err (table_get (table s) x y z) (\<lambda>memo.
           if memo = BadPath then Inr (Continue (s\<lparr>stack := st\<rparr>))
           else
             bind_err (expand ord n j k prices calories st x y z) (\<lambda>st'.
             bind_err (table_set (table s) x y z BadPath) (\<lambda>tb.
             Inr (Continue (s\<lparr>stack := st', table := tb\<rparr>))))))"

text \<open>
  The cells of the table that are still \<open>Unknown\<close>: their number is what the loop
  uses up.
\<close>

definition table_cells :: "cell set" where
  "table_cells = {0..<MAX_DEPTH_X} \<times> {0..<MAX_DEPTH_Y} \<times> {0..<MAX_DEPTH_Z}"

definition unknown_cells :: "memo_table \<Rightarrow> cell set" where
  "unknown_cells tb = {c \<in> table_cells. tb c = Unknown}"

text \<open>
  Lines 90 to 121: the \<open>while\<close> loop. That it ends from every state is proved in the
  section on termination below.
\<close>

function solve_loop ::
  "push_order \<Rightarrow> int \<Rightarrow> int \<Rightarrow> int \<Rightarrow> int list \<Rightarrow> int list \<Rightarrow> globals \<Rightarrow> error + bool" where
  "solve_loop ord n j k prices calories s =
     (if offset (stack s) > 0 then
        (case loop_body ord n j k prices calories s of
           Inl e \<Rightarrow> Inl e
         | Inr (Return b) \<Rightarrow> Inr b
         | Inr (Continue s') \<Rightarrow> solve_loop ord n j k prices calories s')
      else Inr False)"
  by pat_completeness auto

text \<open>
  Lines 83 to 122, for either push order: the origin \<open>(0, 0, 0)\<close> is pushed (three
  pushes of \<open>0\<close>), then the loop runs.
\<close>

definition solve_order ::
  "push_order \<Rightarrow> int \<Rightarrow> int \<Rightarrow> int \<Rightarrow> int list \<Rightarrow> int list \<Rightarrow> globals \<Rightarrow> error + bool" where
  "solve_order ord n j k prices calories s =
     bind_err (push_state (stack s) 0 0 0) (\<lambda>st.
     solve_loop ord n j k prices calories (s\<lparr>stack := st\<rparr>))"

text \<open>The function of the source, which pushes Buy before Skip.\<close>

definition solve :: "int \<Rightarrow> int \<Rightarrow> int \<Rightarrow> int list \<Rightarrow> int list \<Rightarrow> globals \<Rightarrow> error + bool" where
  "solve = solve_order BuyThenSkip"

text \<open>The variant of the specification, which pushes Skip before Buy.\<close>

definition solve_skip_first ::
  "int \<Rightarrow> int \<Rightarrow> int \<Rightarrow> int list \<Rightarrow> int list \<Rightarrow> globals \<Rightarrow> error + bool" where
  "solve_skip_first = solve_order SkipThenBuy"

text \<open>
  The globals as the C runtime sets them up: zero everywhere, so the stack is empty and
  every cell of the table is \<open>Unknown\<close>.
\<close>

definition initial_globals :: globals where
  "initial_globals = \<lparr>stack = \<lparr>offset = 0, data = (\<lambda>_. 0)\<rparr>, table = (\<lambda>_. Unknown)\<rparr>"

section \<open>The specification's side\<close>

subsection \<open>Valid inputs\<close>

text \<open>
  The inputs the specification calls valid: \<open>n\<close>, \<open>j\<close> and \<open>k\<close> are within the
  capacities, the two arrays have \<open>n\<close> entries, every entry is a non-negative C
  \<open>int\<close>, and at entry the stack is empty and every cell of the table is \<open>Unknown\<close>.
\<close>

definition valid_input :: "int \<Rightarrow> int \<Rightarrow> int \<Rightarrow> int list \<Rightarrow> int list \<Rightarrow> globals \<Rightarrow> bool" where
  "valid_input n j k prices calories s \<longleftrightarrow>
     0 \<le> n \<and> n \<le> MAX_DEPTH_X - 1 \<and> 0 \<le> j \<and> j \<le> MAX_DEPTH_Y - 1 \<and> 0 \<le> k \<and> k \<le> MAX_DEPTH_Z - 1 \<and>
     length prices = nat n \<and> length calories = nat n \<and>
     (\<forall>p\<in>set prices. 0 \<le> p \<and> p \<le> INT_MAX) \<and> (\<forall>c\<in>set calories. 0 \<le> c \<and> c \<le> INT_MAX) \<and>
     offset (stack s) = 0 \<and> (\<forall>c. in_table c \<longrightarrow> table s c = Unknown)"

text \<open>
  No sum that the search computes leaves the range of \<open>int\<close>: a budget plus an entry
  is at most \<open>INT_MAX\<close>.
\<close>

definition sums_fit :: "int \<Rightarrow> int \<Rightarrow> int list \<Rightarrow> int list \<Rightarrow> bool" where
  "sums_fit j k prices calories \<longleftrightarrow>
     (\<forall>p\<in>set prices. j + p \<le> INT_MAX) \<and> (\<forall>c\<in>set calories. k + c \<le> INT_MAX)"

subsection \<open>The result the specification states\<close>

text \<open>
  A choice is a list of \<open>n\<close> booleans, one per item. \<open>chosen_sum vs bs m\<close> is the
  running sum of the chosen entries of \<open>vs\<close> after \<open>m\<close> decisions. A choice is
  admissible when no running sum exceeds its budget and the final sums are the targets.
\<close>

definition chosen_sum :: "int list \<Rightarrow> bool list \<Rightarrow> nat \<Rightarrow> int" where
  "chosen_sum vs bs m = (\<Sum>i\<leftarrow>[0..<m]. if bs ! i then vs ! i else 0)"

definition admissible :: "int \<Rightarrow> int \<Rightarrow> int \<Rightarrow> int list \<Rightarrow> int list \<Rightarrow> bool list \<Rightarrow> bool" where
  "admissible n j k prices calories bs \<longleftrightarrow>
     (\<forall>m\<in>{0..nat n}. chosen_sum prices bs m \<le> j \<and> chosen_sum calories bs m \<le> k) \<and>
     chosen_sum prices bs (nat n) = j \<and> chosen_sum calories bs (nat n) = k"

definition choice_exists :: "int \<Rightarrow> int \<Rightarrow> int \<Rightarrow> int list \<Rightarrow> int list \<Rightarrow> bool" where
  "choice_exists n j k prices calories \<longleftrightarrow>
     (\<exists>bs\<in>set (List.n_lists (nat n) [False, True]). admissible n j k prices calories bs)"

subsection \<open>The states at the head of the loop\<close>

text \<open>
  \<open>loop_step\<close> is one run of the loop body that goes on to the next test of the loop
  condition; \<open>visited\<close> holds of every state in which a call of \<open>solve\<close> from \<open>s0\<close>
  tests the loop condition.
\<close>

definition loop_step ::
  "push_order \<Rightarrow> int \<Rightarrow> int \<Rightarrow> int \<Rightarrow> int list \<Rightarrow> int list \<Rightarrow> globals \<Rightarrow> globals \<Rightarrow> bool" where
  "loop_step ord n j k prices calories s s' \<longleftrightarrow>
     0 < offset (stack s) \<and> loop_body ord n j k prices calories s = Inr (Continue s')"

definition visited ::
  "push_order \<Rightarrow> int \<Rightarrow> int \<Rightarrow> int \<Rightarrow> int list \<Rightarrow> int list \<Rightarrow> globals \<Rightarrow> globals \<Rightarrow> bool" where
  "visited ord n j k prices calories s0 s \<longleftrightarrow>
     (\<exists>st. push_state (stack s0) 0 0 0 = Inr st
        \<and> (loop_step ord n j k prices calories)\<^sup>*\<^sup>* (s0\<lparr>stack := st\<rparr>) s)"

section \<open>The stack as a list of cells\<close>

text \<open>
  The integers on the stack, top first, and the same for a list of cells: a cell
  \<open>(x, y, z)\<close> lies on the stack as \<open>x\<close>, \<open>y\<close>, \<open>z\<close> from the top.
\<close>

definition stack_ints :: "dfs_stack \<Rightarrow> int list" where
  "stack_ints st = map (data st) (rev [0..<offset st])"

fun flat :: "cell list \<Rightarrow> int list" where
  "flat [] = []"
| "flat (c # cs) = fst c # fst (snd c) # snd (snd c) # flat cs"

text \<open>
  The cells that one run of the body pushes for the cell \<open>c\<close>, top first, with the
  sums as the code computes them.
\<close>

definition skip_cell :: "cell \<Rightarrow> cell" where
  "skip_cell c = (case c of (x, y, z) \<Rightarrow> (int_add x 1, y, z))"

definition buy_cell :: "int list \<Rightarrow> int list \<Rightarrow> cell \<Rightarrow> cell" where
  "buy_cell prices calories c = (case c of (x, y, z) \<Rightarrow>
     (int_add x 1, int_add y (prices ! nat x), int_add z (calories ! nat x)))"

definition within :: "int \<Rightarrow> int \<Rightarrow> cell \<Rightarrow> bool" where
  "within j k c = (case c of (x, y, z) \<Rightarrow> y \<le> j \<and> z \<le> k)"

definition buy_cells :: "int \<Rightarrow> int \<Rightarrow> int list \<Rightarrow> int list \<Rightarrow> cell \<Rightarrow> cell list" where
  "buy_cells j k prices calories c =
     (if within j k (buy_cell prices calories c) then [buy_cell prices calories c] else [])"

definition pushed :: "push_order \<Rightarrow> int \<Rightarrow> int \<Rightarrow> int \<Rightarrow> int list \<Rightarrow> int list \<Rightarrow> cell \<Rightarrow> cell list" where
  "pushed ord n j k prices calories c =
     (if fst (skip_cell c) \<le> n then
        (case ord of
           BuyThenSkip \<Rightarrow> skip_cell c # buy_cells j k prices calories c
         | SkipThenBuy \<Rightarrow> buy_cells j k prices calories c @ [skip_cell c])
      else [])"

definition succs :: "int \<Rightarrow> int \<Rightarrow> int \<Rightarrow> int list \<Rightarrow> int list \<Rightarrow> cell \<Rightarrow> cell set" where
  "succs n j k prices calories c = set (pushed BuyThenSkip n j k prices calories c)"

text \<open>
  The stack stays short: below a cell of level \<open>x\<close> lie at most \<open>2 * x\<close> cells.
\<close>

fun levels_ok :: "cell list \<Rightarrow> bool" where
  "levels_ok [] = True"
| "levels_ok (c # cl) = (int (length (c # cl)) \<le> 2 * fst c + 1 \<and> levels_ok cl)"

definition shape_inv :: "int \<Rightarrow> globals \<Rightarrow> cell list \<Rightarrow> bool" where
  "shape_inv n s cl \<longleftrightarrow>
     stack_ints (stack s) = flat cl \<and> levels_ok cl \<and> (\<forall>c\<in>set cl. fst c \<le> n)"

text \<open>The search graph, and the cells from which the target can be reached.\<close>

definition edge :: "int \<Rightarrow> int \<Rightarrow> int \<Rightarrow> int list \<Rightarrow> int list \<Rightarrow> cell \<Rightarrow> cell \<Rightarrow> bool" where
  "edge n j k prices calories c c' \<longleftrightarrow> c' \<in> succs n j k prices calories c"

definition reaches :: "int \<Rightarrow> int \<Rightarrow> int \<Rightarrow> int list \<Rightarrow> int list \<Rightarrow> cell \<Rightarrow> bool" where
  "reaches n j k prices calories c \<longleftrightarrow> (edge n j k prices calories)\<^sup>*\<^sup>* c (n, j, k)"

text \<open>
  A region is a set of cells of the table that the search does not leave. The invariant
  of the loop over a region: the stack holds cells of the region, the target is not
  marked, and every successor of a marked cell is marked or on the stack.
\<close>

definition region_ok :: "int \<Rightarrow> int \<Rightarrow> int \<Rightarrow> int list \<Rightarrow> int list \<Rightarrow> cell set \<Rightarrow> bool" where
  "region_ok n j k prices calories R \<longleftrightarrow>
     (\<forall>c\<in>R. in_table c \<and> succs n j k prices calories c \<subseteq> R)"

definition search_inv ::
  "int \<Rightarrow> int \<Rightarrow> int \<Rightarrow> int list \<Rightarrow> int list \<Rightarrow> cell set \<Rightarrow> globals \<Rightarrow> cell list \<Rightarrow> bool" where
  "search_inv n j k prices calories R s cl \<longleftrightarrow>
     stack_ints (stack s) = flat cl \<and> levels_ok cl \<and> set cl \<subseteq> R \<and>
     (\<forall>c\<in>R. table s c = BadPath \<longrightarrow>
        c \<noteq> (n, j, k) \<and>
        (\<forall>c'\<in>succs n j k prices calories c. table s c' = BadPath \<or> c' \<in> set cl))"

text \<open>The cells within the budgets, and the cell that a choice leads to.\<close>

definition in_box :: "int \<Rightarrow> int \<Rightarrow> int \<Rightarrow> cell \<Rightarrow> bool" where
  "in_box n j k c = (case c of (x, y, z) \<Rightarrow>
     0 \<le> x \<and> x \<le> n \<and> 0 \<le> y \<and> y \<le> j \<and> 0 \<le> z \<and> z \<le> k)"

definition walk :: "int list \<Rightarrow> int list \<Rightarrow> bool list \<Rightarrow> nat \<Rightarrow> cell" where
  "walk prices calories bs m = (int m, chosen_sum prices bs m, chosen_sum calories bs m)"

text \<open>The cells that can be reached when every item is free.\<close>

definition free_cells :: "int \<Rightarrow> cell set" where
  "free_cells n = {c. \<exists>x. c = (x, 0, 0) \<and> 0 \<le> x \<and> x \<le> n}"

text \<open>A state whose stack holds the origin, already marked.\<close>

definition marked_origin :: globals where
  "marked_origin = \<lparr>stack = \<lparr>offset = 3, data = (\<lambda>_. 0)\<rparr>, table = (\<lambda>_. Unknown)((0, 0, 0) := BadPath)\<rparr>"

section \<open>Termination of the loop\<close>

text \<open>
  A run of the body that goes on either marks a cell of the table that was \<open>Unknown\<close>,
  or leaves the table as it is and shortens the stack. So the pair of the number of
  \<open>Unknown\<close> cells and the stack offset decreases lexicographically.
\<close>

lemma finite_unknown_cells: "finite (unknown_cells tb)"
  by (simp add: unknown_cells_def table_cells_def)

lemma in_table_cells: "in_table c \<longleftrightarrow> c \<in> table_cells"
  by (cases c) (auto simp: in_table_def table_cells_def)

lemma pop_state_offset:
  assumes "pop_state st = Inr (c, st')"
  shows "offset st' < offset st"
  using assms
  by (auto simp: pop_state_def dfs_stack_pop_def bind_err_def split: if_splits)

lemma mark_unknown_cells:
  assumes "in_table c" and "tb c \<noteq> BadPath"
  shows "card (unknown_cells (tb(c := BadPath))) < card (unknown_cells tb)"
proof -
  from assms have c: "c \<in> unknown_cells tb"
    by (cases "tb c") (auto simp: unknown_cells_def in_table_cells)
  have "unknown_cells (tb(c := BadPath)) = unknown_cells tb - {c}"
    by (auto simp: unknown_cells_def)
  with card_Diff1_less [OF finite_unknown_cells c] show ?thesis
    by simp
qed

lemma loop_body_decreases:
  assumes "loop_body ord n j k prices calories s = Inr (Continue s')"
  shows "card (unknown_cells (table s')) < card (unknown_cells (table s))
       \<or> (table s' = table s \<and> offset (stack s') < offset (stack s))"
proof -
  from assms obtain x y z st where pop: "pop_state (stack s) = Inr ((x, y, z), st)"
    by (auto simp: loop_body_def bind_err_def split: sum.splits)
  show ?thesis
  proof (cases "table s (x, y, z) = BadPath")
    case True
    with assms pop have "s' = s\<lparr>stack := st\<rparr>"
      by (auto simp: loop_body_def bind_err_def table_get_def split: sum.splits if_splits)
    with pop_state_offset [OF pop] show ?thesis by simp
  next
    case False
    with assms pop have "in_table (x, y, z)" and "table s' = (table s)((x, y, z) := BadPath)"
      by (auto simp: loop_body_def bind_err_def table_get_def table_set_def
               split: sum.splits if_splits)
    with False mark_unknown_cells show ?thesis by simp
  qed
qed

termination solve_loop
proof (relation "measures
    [\<lambda>(ord, n, j, k, prices, calories, s). card (unknown_cells (table s)),
     \<lambda>(ord, n, j, k, prices, calories, s). offset (stack s)]")
  show "wf (measures
    [\<lambda>(ord, n, j, k, prices, calories, s). card (unknown_cells (table s)),
     \<lambda>(ord, n, j, k, prices, calories, s). offset (stack s)])"
    by simp
next
  fix ord n j k prices calories s out s'
  assume "loop_body ord n j k prices calories s = Inr out" and "out = Continue s'"
  then have "loop_body ord n j k prices calories s = Inr (Continue s')" by simp
  from loop_body_decreases [OF this]
  show "((ord, n, j, k, prices, calories, s'), (ord, n, j, k, prices, calories, s))
      \<in> measures
          [\<lambda>(ord, n, j, k, prices, calories, s). card (unknown_cells (table s)),
           \<lambda>(ord, n, j, k, prices, calories, s). offset (stack s)]"
    by auto
qed

declare solve_loop.simps [simp del]


section \<open>The operations on the stack\<close>

lemma length_stack_ints: "length (stack_ints st) = offset st"
  by (simp add: stack_ints_def)

lemma length_flat: "length (flat cl) = 3 * length cl"
  by (induction cl) auto

lemma flat_append: "flat (as @ bs) = flat as @ flat bs"
  by (induction as) auto

lemma stack_ints_push:
  "stack_ints (st\<lparr>data := (data st)(offset st := v), offset := Suc (offset st)\<rparr>) = v # stack_ints st"
  by (simp add: stack_ints_def)

lemma dfs_stack_push_abs:
  assumes "offset st < STACK_SLOTS"
  shows "\<exists>st'. dfs_stack_push st v = Inr st' \<and> stack_ints st' = v # stack_ints st"
  using assms by (simp add: dfs_stack_push_def stack_ints_push)

lemma dfs_stack_pop_abs:
  assumes "stack_ints st = v # vs" and "offset st \<le> STACK_SLOTS"
  shows "\<exists>st'. dfs_stack_pop st = Inr (v, st') \<and> stack_ints st' = vs"
proof -
  have "offset st \<noteq> 0"
  proof
    assume "offset st = 0"
    then have "stack_ints st = []" by (simp add: stack_ints_def)
    with assms(1) show False by simp
  qed
  then obtain m where m: "offset st = Suc m"
    by (cases "offset st") auto
  with assms(1) have "v = data st m" and "vs = map (data st) (rev [0..<m])"
    by (auto simp: stack_ints_def)
  with m assms(2) show ?thesis
    by (simp add: dfs_stack_pop_def stack_ints_def)
qed

lemma push_state_abs:
  assumes "offset st + 3 \<le> STACK_SLOTS"
  shows "\<exists>st'. push_state st x y z = Inr st' \<and> stack_ints st' = flat [(x, y, z)] @ stack_ints st"
proof -
  from assms obtain st1 where 1: "dfs_stack_push st z = Inr st1" "stack_ints st1 = z # stack_ints st"
    using dfs_stack_push_abs [of st z] by auto
  from 1(2) assms have "offset st1 < STACK_SLOTS"
    using length_stack_ints [of st1] length_stack_ints [of st] by simp
  then obtain st2 where 2: "dfs_stack_push st1 y = Inr st2" "stack_ints st2 = y # stack_ints st1"
    using dfs_stack_push_abs [of st1 y] by auto
  from 1(2) 2(2) assms have "offset st2 < STACK_SLOTS"
    using length_stack_ints [of st2] length_stack_ints [of st] by simp
  then obtain st3 where 3: "dfs_stack_push st2 x = Inr st3" "stack_ints st3 = x # stack_ints st2"
    using dfs_stack_push_abs [of st2 x] by auto
  from 1 2 3 show ?thesis
    by (simp add: push_state_def bind_err_def)
qed

lemma pop_state_abs:
  assumes "stack_ints st = flat (c # cl)" and "offset st \<le> STACK_SLOTS"
  shows "\<exists>st'. pop_state st = Inr (c, st') \<and> stack_ints st' = flat cl"
proof -
  obtain x y z where c: "c = (x, y, z)" by (cases c) auto
  with assms(1) have s0: "stack_ints st = x # y # z # flat cl" by simp
  from dfs_stack_pop_abs [OF s0 assms(2)]
  obtain st1 where 1: "dfs_stack_pop st = Inr (x, st1)" "stack_ints st1 = y # z # flat cl"
    by auto
  from 1(2) s0 assms(2) have "offset st1 \<le> STACK_SLOTS"
    using length_stack_ints [of st1] length_stack_ints [of st] by simp
  from dfs_stack_pop_abs [OF 1(2) this]
  obtain st2 where 2: "dfs_stack_pop st1 = Inr (y, st2)" "stack_ints st2 = z # flat cl"
    by auto
  from 2(2) s0 assms(2) have "offset st2 \<le> STACK_SLOTS"
    using length_stack_ints [of st2] length_stack_ints [of st] by simp
  from dfs_stack_pop_abs [OF 2(2) this]
  obtain st3 where 3: "dfs_stack_pop st2 = Inr (z, st3)" "stack_ints st3 = flat cl"
    by auto
  from 1 2 3 c show ?thesis
    by (simp add: pop_state_def bind_err_def)
qed

lemma pop_top:
  assumes "stack_ints (stack s) = flat (c # rest)" and "3 * length rest + 3 \<le> STACK_SLOTS"
  shows "\<exists>st. pop_state (stack s) = Inr (c, st) \<and> stack_ints st = flat rest"
proof -
  have "offset (stack s) = 3 * length rest + 3"
    using assms(1) length_stack_ints [of "stack s"] length_flat [of "c # rest"] by simp
  with assms(2) have "offset (stack s) \<le> STACK_SLOTS" by simp
  from pop_state_abs [OF assms(1) this] show ?thesis .
qed

section \<open>One run of the loop body\<close>

lemma int_add_small:
  assumes "INT_MIN \<le> a + b" and "a + b \<le> INT_MAX"
  shows "int_add a b = a + b"
proof -
  from assms have "(a + b + 2147483648) mod 4294967296 = a + b + 2147483648"
    by (intro mod_pos_pos_trivial) auto
  then show ?thesis
    by (simp add: int_add_def int_wrap_def)
qed

lemma push_buy_abs:
  assumes "offset st + 3 \<le> STACK_SLOTS"
  shows "\<exists>st'. push_buy j k st (fst (buy_cell ps cs c)) (fst (snd (buy_cell ps cs c))) (snd (snd (buy_cell ps cs c))) = Inr st'
     \<and> stack_ints st' = flat (buy_cells j k ps cs c) @ stack_ints st"
proof (cases "within j k (buy_cell ps cs c)")
  case True
  with push_state_abs [OF assms] show ?thesis
    by (auto simp: push_buy_def buy_cells_def within_def split: prod.splits)
next
  case False
  then show ?thesis
    by (auto simp: push_buy_def buy_cells_def within_def split: prod.splits)
qed

lemma length_buy_cells: "length (buy_cells j k ps cs c) \<le> 1"
  by (simp add: buy_cells_def)

lemma expand_abs:
  assumes st: "stack_ints st = flat rest"
    and cap: "3 * length rest + 6 \<le> STACK_SLOTS"
    and idx: "fst (skip_cell (x, y, z)) \<le> n \<longrightarrow> 0 \<le> x \<and> nat x < length ps \<and> nat x < length cs"
  shows "\<exists>st'. expand ord n j k ps cs st x y z = Inr st'
     \<and> stack_ints st' = flat (pushed ord n j k ps cs (x, y, z) @ rest)"
proof (cases "fst (skip_cell (x, y, z)) \<le> n")
  case False
  with st show ?thesis
    by (simp add: expand_def pushed_def skip_cell_def)
next
  case True
  with idx have ix: "0 \<le> x" "nat x < length ps" "nat x < length cs" by auto
  let ?c = "(x, y, z)"
  let ?b = "buy_cell ps cs ?c"
  have off: "offset st = 3 * length rest"
    using st length_stack_ints [of st] by (simp add: length_flat)
  have bx: "fst ?b = int_add x 1" "fst (snd ?b) = int_add y (ps ! nat x)"
      "snd (snd ?b) = int_add z (cs ! nat x)"
    by (simp_all add: buy_cell_def)
  show ?thesis
  proof (cases ord)
    case BuyThenSkip
    from off cap have "offset st + 3 \<le> STACK_SLOTS" by simp
    from push_buy_abs [OF this, of j k ps cs ?c]
    obtain st1 where 1: "push_buy j k st (int_add x 1) (int_add y (ps ! nat x)) (int_add z (cs ! nat x)) = Inr st1"
      "stack_ints st1 = flat (buy_cells j k ps cs ?c) @ stack_ints st"
      by (auto simp: bx)
    have "offset st1 + 3 \<le> STACK_SLOTS"
      using 1(2) off cap length_stack_ints [of st1] length_stack_ints [of st]
        length_buy_cells [of j k ps cs ?c]
      by (simp add: length_flat)
    from push_state_abs [OF this, of "int_add x 1" y z]
    obtain st2 where 2: "push_state st1 (int_add x 1) y z = Inr st2"
      "stack_ints st2 = flat [(int_add x 1, y, z)] @ stack_ints st1"
      by auto
    from True ix 1 2 st BuyThenSkip show ?thesis
      by (simp add: expand_def pushed_def skip_cell_def array_get_def bind_err_def flat_append)
  next
    case SkipThenBuy
    from off cap have "offset st + 3 \<le> STACK_SLOTS" by simp
    from push_state_abs [OF this, of "int_add x 1" y z]
    obtain st1 where 1: "push_state st (int_add x 1) y z = Inr st1"
      "stack_ints st1 = flat [(int_add x 1, y, z)] @ stack_ints st"
      by auto
    have "offset st1 + 3 \<le> STACK_SLOTS"
      using 1(2) off cap length_stack_ints [of st1] length_stack_ints [of st]
      by simp
    from push_buy_abs [OF this, of j k ps cs ?c]
    obtain st2 where 2: "push_buy j k st1 (int_add x 1) (int_add y (ps ! nat x)) (int_add z (cs ! nat x)) = Inr st2"
      "stack_ints st2 = flat (buy_cells j k ps cs ?c) @ stack_ints st1"
      by (auto simp: bx)
    from True ix 1 2 st SkipThenBuy show ?thesis
      by (simp add: expand_def pushed_def skip_cell_def array_get_def bind_err_def flat_append)
  qed
qed

lemma loop_body_target:
  assumes "stack_ints (stack s) = flat (c # rest)" and "3 * length rest + 3 \<le> STACK_SLOTS"
    and "c = (n, j, k)"
  shows "loop_body ord n j k ps cs s = Inr (Return True)"
proof -
  from pop_top [OF assms(1,2)] obtain st where "pop_state (stack s) = Inr (c, st)" by auto
  with assms(3) show ?thesis
    by (simp add: loop_body_def bind_err_def)
qed

lemma loop_body_outside:
  assumes "stack_ints (stack s) = flat (c # rest)" and "3 * length rest + 3 \<le> STACK_SLOTS"
    and "c \<noteq> (n, j, k)" and "\<not> in_table c"
  shows "loop_body ord n j k ps cs s = Inl TableOutOfBounds"
proof -
  from pop_top [OF assms(1,2)] obtain st where "pop_state (stack s) = Inr (c, st)" by auto
  with assms(3,4) show ?thesis
    by (cases c) (auto simp: loop_body_def bind_err_def table_get_def)
qed

lemma loop_body_marked:
  assumes "stack_ints (stack s) = flat (c # rest)" and "3 * length rest + 3 \<le> STACK_SLOTS"
    and "c \<noteq> (n, j, k)" and "in_table c" and "table s c = BadPath"
  shows "\<exists>s'. loop_body ord n j k ps cs s = Inr (Continue s')
     \<and> stack_ints (stack s') = flat rest \<and> table s' = table s"
proof -
  from pop_top [OF assms(1,2)] obtain st
    where "pop_state (stack s) = Inr (c, st)" and "stack_ints st = flat rest" by auto
  with assms(3,4,5) show ?thesis
    by (cases c) (auto simp: loop_body_def bind_err_def table_get_def)
qed

lemma loop_body_fresh:
  assumes "stack_ints (stack s) = flat (c # rest)" and cap: "3 * length rest + 6 \<le> STACK_SLOTS"
    and "c \<noteq> (n, j, k)" and "in_table c" and "table s c \<noteq> BadPath"
    and idx: "fst (skip_cell c) \<le> n \<longrightarrow> nat (fst c) < length ps \<and> nat (fst c) < length cs"
  shows "\<exists>s'. loop_body ord n j k ps cs s = Inr (Continue s')
     \<and> stack_ints (stack s') = flat (pushed ord n j k ps cs c @ rest)
     \<and> table s' = (table s)(c := BadPath)"
proof -
  obtain x y z where c: "c = (x, y, z)" by (cases c) auto
  from cap have "3 * length rest + 3 \<le> STACK_SLOTS" by simp
  from pop_top [OF assms(1) this] obtain st
    where pop: "pop_state (stack s) = Inr (c, st)" and st: "stack_ints st = flat rest" by auto
  from \<open>in_table c\<close> c have "0 \<le> x" by (simp add: in_table_def)
  with idx c have "fst (skip_cell (x, y, z)) \<le> n \<longrightarrow> 0 \<le> x \<and> nat x < length ps \<and> nat x < length cs"
    by simp
  from expand_abs [OF st cap this, where ord = ord and j = j and k = k] obtain st'
    where ex: "expand ord n j k ps cs st x y z = Inr st'"
      and st': "stack_ints st' = flat (pushed ord n j k ps cs (x, y, z) @ rest)" by auto
  from pop ex st' c assms(3,4,5) show ?thesis
    by (auto simp: loop_body_def bind_err_def table_get_def table_set_def)
qed

lemma loop_body_table_mono:
  assumes "loop_body ord n j k ps cs s = Inr (Continue s')" and "table s c = BadPath"
  shows "table s' c = BadPath"
  using assms
  by (auto simp: loop_body_def bind_err_def table_get_def table_set_def
      split: sum.splits prod.splits if_splits)

lemma loop_steps_table_mono:
  assumes "(loop_step ord n j k ps cs)\<^sup>*\<^sup>* s s'" and "table s c = BadPath"
  shows "table s' c = BadPath"
  using assms
proof (induction rule: rtranclp_induct)
  case base
  then show ?case .
next
  case (step y z)
  then show ?case by (auto simp: loop_step_def intro: loop_body_table_mono)
qed

section \<open>The stack stays within its capacity\<close>

lemma set_pushed: "set (pushed ord n j k ps cs c) = succs n j k ps cs c"
  by (cases ord) (auto simp: pushed_def succs_def)

lemma length_pushed: "length (pushed ord n j k ps cs c) \<le> 2"
  by (cases ord) (auto simp: pushed_def buy_cells_def)

lemma skip_cell_level:
  assumes "in_table c"
  shows "fst (skip_cell c) = fst c + 1"
proof -
  obtain x y z where c: "c = (x, y, z)" by (cases c) auto
  with assms have "INT_MIN \<le> x + 1" and "x + 1 \<le> INT_MAX"
    by (auto simp: in_table_def)
  then have "int_add x 1 = x + 1" by (rule int_add_small)
  with c show ?thesis by (simp add: skip_cell_def)
qed

lemma succs_level:
  assumes "in_table c" and "c' \<in> succs n j k ps cs c"
  shows "fst c' = fst c + 1 \<and> fst c' \<le> n"
proof -
  have "fst (buy_cell ps cs c) = fst (skip_cell c)"
    by (cases c) (simp add: buy_cell_def skip_cell_def)
  with assms(2) have "fst c' = fst (skip_cell c) \<and> fst (skip_cell c) \<le> n"
    by (auto simp: succs_def pushed_def buy_cells_def split: if_splits)
  with skip_cell_level [OF assms(1)] show ?thesis by simp
qed

lemma levels_ok_push:
  assumes "levels_ok cl" and "\<forall>c'\<in>set new. int (length cl) + 2 \<le> 2 * fst c' + 1"
    and "length new \<le> 2"
  shows "levels_ok (new @ cl)"
proof -
  consider "new = []" | a where "new = [a]" | a b where "new = [a, b]"
    using assms(3)
    by (cases new; cases "tl new"; cases "tl (tl new)") auto
  then show ?thesis
    using assms(1,2) by cases auto
qed

lemma levels_ok_pushed:
  assumes "levels_ok (c # rest)" and "in_table c"
  shows "levels_ok (pushed ord n j k ps cs c @ rest)"
proof (rule levels_ok_push)
  from assms(1) show "levels_ok rest" by simp
  show "length (pushed ord n j k ps cs c) \<le> 2" by (rule length_pushed)
  show "\<forall>c'\<in>set (pushed ord n j k ps cs c). int (length rest) + 2 \<le> 2 * fst c' + 1"
  proof
    fix c' assume "c' \<in> set (pushed ord n j k ps cs c)"
    then have "c' \<in> succs n j k ps cs c" by (simp add: set_pushed)
    from succs_level [OF assms(2) this] have "fst c' = fst c + 1" by simp
    with assms(1) show "int (length rest) + 2 \<le> 2 * fst c' + 1" by simp
  qed
qed

lemma levels_ok_length:
  assumes "levels_ok cl" and "\<forall>c\<in>set cl. fst c \<le> n" and "0 \<le> n"
  shows "int (length cl) \<le> 2 * n + 1"
  using assms by (cases cl) auto

lemma shape_capacity:
  assumes "shape_inv n s (c # rest)" and "n \<le> 500"
  shows "3 * length rest + 6 \<le> STACK_SLOTS"
proof -
  from assms have "int (length (c # rest)) \<le> 2 * fst c + 1" and "fst c \<le> 500"
    by (auto simp: shape_inv_def)
  then show ?thesis by simp
qed

lemma shape_offset:
  assumes "shape_inv n s cl"
  shows "offset (stack s) = 3 * length cl"
  using assms length_stack_ints [of "stack s"] by (simp add: shape_inv_def length_flat)

lemma table_index:
  assumes "in_table c" and "fst (skip_cell c) \<le> n" and "length ps = nat n" and "length cs = nat n"
  shows "nat (fst c) < length ps \<and> nat (fst c) < length cs"
proof -
  from assms(1) have "0 \<le> fst c" by (cases c) (simp add: in_table_def)
  with skip_cell_level [OF assms(1)] assms(2,3,4) show ?thesis by simp
qed

lemma shape_step:
  assumes inv: "shape_inv n s (c # rest)" and n: "n \<le> 500"
    and len: "length ps = nat n" "length cs = nat n"
  shows "loop_body ord n j k ps cs s = Inr (Return True)
       \<or> loop_body ord n j k ps cs s = Inl TableOutOfBounds
       \<or> (\<exists>s' cl'. loop_body ord n j k ps cs s = Inr (Continue s') \<and> shape_inv n s' cl')"
proof -
  from inv have st: "stack_ints (stack s) = flat (c # rest)" by (simp add: shape_inv_def)
  from shape_capacity [OF inv n] have cap: "3 * length rest + 6 \<le> STACK_SLOTS" .
  then have cap3: "3 * length rest + 3 \<le> STACK_SLOTS" by simp
  from inv have rest: "levels_ok rest" "\<forall>c\<in>set rest. fst c \<le> n" by (auto simp: shape_inv_def)
  consider "c = (n, j, k)" | "c \<noteq> (n, j, k)" "\<not> in_table c"
    | "c \<noteq> (n, j, k)" "in_table c" "table s c = BadPath"
    | "c \<noteq> (n, j, k)" "in_table c" "table s c \<noteq> BadPath" by blast
  then show ?thesis
  proof cases
    case 1
    from loop_body_target [OF st cap3 1] show ?thesis by simp
  next
    case 2
    from loop_body_outside [OF st cap3 2] show ?thesis by simp
  next
    case 3
    from loop_body_marked [OF st cap3 3] obtain s'
      where "loop_body ord n j k ps cs s = Inr (Continue s')"
        and "stack_ints (stack s') = flat rest" by blast
    with rest have "loop_body ord n j k ps cs s = Inr (Continue s') \<and> shape_inv n s' rest"
      by (simp add: shape_inv_def)
    then show ?thesis by blast
  next
    case 4
    have idx: "fst (skip_cell c) \<le> n \<longrightarrow> nat (fst c) < length ps \<and> nat (fst c) < length cs"
      using table_index [OF 4(2) _ len] by blast
    from loop_body_fresh [OF st cap 4 idx] obtain s'
      where b: "loop_body ord n j k ps cs s = Inr (Continue s')"
        and s': "stack_ints (stack s') = flat (pushed ord n j k ps cs c @ rest)" by blast
    from inv have "levels_ok (c # rest)" by (simp add: shape_inv_def)
    from levels_ok_pushed [OF this 4(2)]
    have l: "levels_ok (pushed ord n j k ps cs c @ rest)" .
    have "\<forall>c'\<in>set (pushed ord n j k ps cs c). fst c' \<le> n"
      using succs_level [OF 4(2)] by (auto simp: set_pushed)
    with rest(2) have "\<forall>c'\<in>set (pushed ord n j k ps cs c @ rest). fst c' \<le> n" by auto
    with b s' l have "loop_body ord n j k ps cs s = Inr (Continue s')
        \<and> shape_inv n s' (pushed ord n j k ps cs c @ rest)"
      by (simp add: shape_inv_def)
    then show ?thesis by blast
  qed
qed

lemma shape_nonempty:
  assumes "shape_inv n s cl" and "0 < offset (stack s)"
  obtains c rest where "cl = c # rest"
  using assms shape_offset [OF assms(1)] by (cases cl) auto

lemma shape_loop:
  assumes "shape_inv n s cl" and "n \<le> 500" and "length ps = nat n" and "length cs = nat n"
  shows "solve_loop ord n j k ps cs s \<in> {Inr True, Inr False, Inl TableOutOfBounds}"
  using assms
proof (induction ord n j k ps cs s arbitrary: cl rule: solve_loop.induct)
  case (1 ord n j k ps cs s)
  show ?case
  proof (cases "0 < offset (stack s)")
    case False
    then show ?thesis by (simp add: solve_loop.simps)
  next
    case True
    with "1.prems"(1) obtain c rest where cl: "cl = c # rest"
      by (rule shape_nonempty)
    from shape_step [OF "1.prems"(1) [unfolded cl] "1.prems"(2,3,4), of ord j k]
    consider "loop_body ord n j k ps cs s = Inr (Return True)"
      | "loop_body ord n j k ps cs s = Inl TableOutOfBounds"
      | s' cl' where "loop_body ord n j k ps cs s = Inr (Continue s')" "shape_inv n s' cl'"
      by blast
    then show ?thesis
    proof cases
      case 1
      with True show ?thesis by (simp add: solve_loop.simps)
    next
      case 2
      with True show ?thesis by (simp add: solve_loop.simps)
    next
      case 3
      from "1.IH" [OF True 3(1) refl 3(2) "1.prems"(2,3,4)]
      have "solve_loop ord n j k ps cs s' \<in> {Inr True, Inr False, Inl TableOutOfBounds}" .
      with True 3(1) show ?thesis by (simp add: solve_loop.simps)
    qed
  qed
qed

section \<open>The loop decides reachability\<close>

lemma reaches_target: "reaches n j k ps cs (n, j, k)"
  by (simp add: reaches_def)

lemma reaches_edge:
  assumes "c' \<in> succs n j k ps cs c" and "reaches n j k ps cs c'"
  shows "reaches n j k ps cs c"
  using assms unfolding reaches_def
  by (auto simp: edge_def intro: converse_rtranclp_into_rtranclp)

lemma reaches_cases:
  assumes "reaches n j k ps cs c" and "c \<noteq> (n, j, k)"
  shows "\<exists>c'\<in>succs n j k ps cs c. reaches n j k ps cs c'"
proof -
  from assms(1) have "(edge n j k ps cs)\<^sup>*\<^sup>* c (n, j, k)" by (simp add: reaches_def)
  then show ?thesis
  proof (cases rule: converse_rtranclpE)
    case base
    with assms(2) show ?thesis by simp
  next
    case (step y)
    then show ?thesis by (auto simp: edge_def reaches_def)
  qed
qed

lemma marked_reaches:
  assumes reg: "region_ok n j k ps cs R" and inv: "search_inv n j k ps cs R s cl"
    and "reaches n j k ps cs c" and "c \<in> R" and "table s c = BadPath"
  shows "\<exists>c'\<in>set cl. table s c' \<noteq> BadPath \<and> reaches n j k ps cs c'"
proof -
  from assms(3) have "(edge n j k ps cs)\<^sup>*\<^sup>* c (n, j, k)" by (simp add: reaches_def)
  then have "c \<in> R \<longrightarrow> table s c = BadPath \<longrightarrow>
      (\<exists>c'\<in>set cl. table s c' \<noteq> BadPath \<and> reaches n j k ps cs c')"
  proof (induction rule: converse_rtranclp_induct)
    case base
    from inv show ?case by (auto simp: search_inv_def)
  next
    case (step y z)
    show ?case
    proof (intro impI)
      assume y: "y \<in> R" "table s y = BadPath"
      from step.hyps(1) have zy: "z \<in> succs n j k ps cs y" by (simp add: edge_def)
      with reg y(1) have zR: "z \<in> R" by (auto simp: region_ok_def)
      from step.hyps(2) have rz: "reaches n j k ps cs z" by (simp add: reaches_def)
      show "\<exists>c'\<in>set cl. table s c' \<noteq> BadPath \<and> reaches n j k ps cs c'"
      proof (cases "table s z = BadPath")
        case True
        with step.IH zR show ?thesis by simp
      next
        case False
        with inv y zy have "z \<in> set cl" by (auto simp: search_inv_def)
        with False rz show ?thesis by blast
      qed
    qed
  qed
  with assms(4,5) show ?thesis by simp
qed

lemma search_capacity:
  assumes "region_ok n j k ps cs R" and "search_inv n j k ps cs R s (c # rest)"
  shows "3 * length rest + 6 \<le> STACK_SLOTS"
proof -
  from assms have "in_table c" by (auto simp: region_ok_def search_inv_def)
  then have "fst c \<le> 500" by (cases c) (simp add: in_table_def)
  moreover from assms(2) have "int (length (c # rest)) \<le> 2 * fst c + 1"
    by (simp add: search_inv_def)
  ultimately show ?thesis by simp
qed

lemma search_step_marked:
  assumes reg: "region_ok n j k ps cs R" and inv: "search_inv n j k ps cs R s (c # rest)"
    and c: "table s c = BadPath"
    and s': "stack_ints (stack s') = flat rest" "table s' = table s"
  shows "search_inv n j k ps cs R s' rest"
    and "(\<exists>c'\<in>set rest. reaches n j k ps cs c') \<longleftrightarrow> (\<exists>c'\<in>set (c # rest). reaches n j k ps cs c')"
proof -
  from inv c s' show "search_inv n j k ps cs R s' rest"
    by (simp add: search_inv_def) metis
  from inv have cR: "c \<in> R" by (simp add: search_inv_def)
  have "\<exists>c'\<in>set rest. reaches n j k ps cs c'" if "reaches n j k ps cs c"
  proof -
    from marked_reaches [OF reg inv that cR c] obtain c'
      where "c' \<in> set (c # rest)" "table s c' \<noteq> BadPath" "reaches n j k ps cs c'" by blast
    with c show ?thesis by auto
  qed
  then show "(\<exists>c'\<in>set rest. reaches n j k ps cs c') \<longleftrightarrow> (\<exists>c'\<in>set (c # rest). reaches n j k ps cs c')"
    by auto
qed

lemma search_step_fresh:
  assumes reg: "region_ok n j k ps cs R" and inv: "search_inv n j k ps cs R s (c # rest)"
    and c: "c \<noteq> (n, j, k)"
    and s': "stack_ints (stack s') = flat (pushed ord n j k ps cs c @ rest)"
      "table s' = (table s)(c := BadPath)"
  shows "search_inv n j k ps cs R s' (pushed ord n j k ps cs c @ rest)"
    and "(\<exists>c'\<in>set (pushed ord n j k ps cs c @ rest). reaches n j k ps cs c')
       \<longleftrightarrow> (\<exists>c'\<in>set (c # rest). reaches n j k ps cs c')"
proof -
  from inv have cR: "c \<in> R" by (simp add: search_inv_def)
  with reg have tab: "in_table c" and sub: "succs n j k ps cs c \<subseteq> R"
    by (auto simp: region_ok_def)
  from inv have "levels_ok (c # rest)" by (simp add: search_inv_def)
  from levels_ok_pushed [OF this tab]
  have l: "levels_ok (pushed ord n j k ps cs c @ rest)" .
  from inv sub have R: "set (pushed ord n j k ps cs c @ rest) \<subseteq> R"
    by (auto simp: search_inv_def set_pushed)
  have m: "u \<noteq> (n, j, k) \<and> (\<forall>u'\<in>succs n j k ps cs u.
      table s' u' = BadPath \<or> u' \<in> set (pushed ord n j k ps cs c @ rest))"
    if "u \<in> R" "table s' u = BadPath" for u
  proof (cases "u = c")
    case True
    with c show ?thesis by (simp add: set_pushed)
  next
    case False
    with that s'(2) have "table s u = BadPath" by simp
    with inv that(1) have "u \<noteq> (n, j, k)"
      and "\<forall>u'\<in>succs n j k ps cs u. table s u' = BadPath \<or> u' \<in> set (c # rest)"
      by (auto simp: search_inv_def)
    with s'(2) show ?thesis by auto
  qed
  from s'(1) l R m show "search_inv n j k ps cs R s' (pushed ord n j k ps cs c @ rest)"
    unfolding search_inv_def by blast
  show "(\<exists>c'\<in>set (pushed ord n j k ps cs c @ rest). reaches n j k ps cs c')
       \<longleftrightarrow> (\<exists>c'\<in>set (c # rest). reaches n j k ps cs c')"
  proof
    assume "\<exists>c'\<in>set (pushed ord n j k ps cs c @ rest). reaches n j k ps cs c'"
    then obtain c' where c': "c' \<in> succs n j k ps cs c \<or> c' \<in> set rest" "reaches n j k ps cs c'"
      by (auto simp: set_pushed)
    with reaches_edge [of c' n j k ps cs c] show "\<exists>c'\<in>set (c # rest). reaches n j k ps cs c'"
      by auto
  next
    assume "\<exists>c'\<in>set (c # rest). reaches n j k ps cs c'"
    then consider "reaches n j k ps cs c" | c' where "c' \<in> set rest" "reaches n j k ps cs c'"
      by auto
    then show "\<exists>c'\<in>set (pushed ord n j k ps cs c @ rest). reaches n j k ps cs c'"
    proof cases
      case 1
      from reaches_cases [OF 1 c] show ?thesis by (auto simp: set_pushed)
    next
      case 2
      then show ?thesis by auto
    qed
  qed
qed

lemma search_step:
  assumes reg: "region_ok n j k ps cs R" and inv: "search_inv n j k ps cs R s (c # rest)"
    and len: "length ps = nat n" "length cs = nat n"
  shows "(c = (n, j, k) \<and> loop_body ord n j k ps cs s = Inr (Return True))
       \<or> (c \<noteq> (n, j, k) \<and> (\<exists>s' cl'. loop_body ord n j k ps cs s = Inr (Continue s')
            \<and> search_inv n j k ps cs R s' cl'
            \<and> ((\<exists>c'\<in>set cl'. reaches n j k ps cs c')
                 \<longleftrightarrow> (\<exists>c'\<in>set (c # rest). reaches n j k ps cs c'))))"
proof -
  from inv have st: "stack_ints (stack s) = flat (c # rest)" by (simp add: search_inv_def)
  from search_capacity [OF reg inv] have cap: "3 * length rest + 6 \<le> STACK_SLOTS" .
  then have cap3: "3 * length rest + 3 \<le> STACK_SLOTS" by simp
  from reg inv have tab: "in_table c" by (auto simp: region_ok_def search_inv_def)
  consider "c = (n, j, k)" | "c \<noteq> (n, j, k)" "table s c = BadPath"
    | "c \<noteq> (n, j, k)" "table s c \<noteq> BadPath" by blast
  then show ?thesis
  proof cases
    case 1
    from loop_body_target [OF st cap3 1] 1 show ?thesis by simp
  next
    case 2
    from loop_body_marked [OF st cap3 2(1) tab 2(2)] obtain s'
      where b: "loop_body ord n j k ps cs s = Inr (Continue s')"
        and s': "stack_ints (stack s') = flat rest" "table s' = table s" by blast
    from search_step_marked [OF reg inv 2(2) s'] b 2(1) show ?thesis by blast
  next
    case 3
    have idx: "fst (skip_cell c) \<le> n \<longrightarrow> nat (fst c) < length ps \<and> nat (fst c) < length cs"
      using table_index [OF tab _ len] by blast
    from loop_body_fresh [OF st cap 3(1) tab 3(2) idx] obtain s'
      where b: "loop_body ord n j k ps cs s = Inr (Continue s')"
        and s': "stack_ints (stack s') = flat (pushed ord n j k ps cs c @ rest)"
          "table s' = (table s)(c := BadPath)" by blast
    from search_step_fresh [OF reg inv 3(1) s'] b 3(1) show ?thesis by blast
  qed
qed

lemma search_offset:
  assumes "search_inv n j k ps cs R s cl"
  shows "offset (stack s) = 3 * length cl"
  using assms length_stack_ints [of "stack s"] by (simp add: search_inv_def length_flat)

lemma search_loop:
  assumes "region_ok n j k ps cs R" and "search_inv n j k ps cs R s cl"
    and "length ps = nat n" and "length cs = nat n"
  shows "solve_loop ord n j k ps cs s = Inr (\<exists>c\<in>set cl. reaches n j k ps cs c)"
  using assms
proof (induction ord n j k ps cs s arbitrary: cl rule: solve_loop.induct)
  case (1 ord n j k ps cs s)
  show ?case
  proof (cases cl)
    case Nil
    with search_offset [OF "1.prems"(2)] show ?thesis by (simp add: solve_loop.simps)
  next
    case (Cons c rest)
    with search_offset [OF "1.prems"(2)] have pos: "0 < offset (stack s)" by simp
    from search_step [OF "1.prems"(1) "1.prems"(2) [unfolded Cons] "1.prems"(3,4), of ord]
    consider "c = (n, j, k)" "loop_body ord n j k ps cs s = Inr (Return True)"
      | s' cl' where "loop_body ord n j k ps cs s = Inr (Continue s')"
        "search_inv n j k ps cs R s' cl'"
        "(\<exists>c'\<in>set cl'. reaches n j k ps cs c') \<longleftrightarrow> (\<exists>c'\<in>set (c # rest). reaches n j k ps cs c')"
      by blast
    then show ?thesis
    proof cases
      case 1
      with pos Cons reaches_target [of n j k ps cs] show ?thesis
        by (auto simp: solve_loop.simps)
    next
      case 2
      from "1.IH" [OF pos 2(1) refl "1.prems"(1) 2(2) "1.prems"(3,4)]
      have "solve_loop ord n j k ps cs s' = Inr (\<exists>c\<in>set cl'. reaches n j k ps cs c)" .
      with pos 2(1,3) Cons show ?thesis by (simp add: solve_loop.simps)
    qed
  qed
qed

lemma region_closed:
  assumes reg: "region_ok n j k ps cs R" and "(edge n j k ps cs)\<^sup>*\<^sup>* c c'" and "c \<in> R"
  shows "c' \<in> R"
  using assms(2,3)
proof (induction rule: rtranclp_induct)
  case base
  then show ?case .
next
  case (step y z)
  with reg show ?case by (auto simp: region_ok_def edge_def)
qed

section \<open>Reachability and choices\<close>

lemma chosen_sum_0: "chosen_sum vs bs 0 = 0"
  by (simp add: chosen_sum_def)

lemma chosen_sum_Suc:
  "chosen_sum vs bs (Suc m) = chosen_sum vs bs m + (if bs ! m then vs ! m else 0)"
  by (simp add: chosen_sum_def)

lemma chosen_sum_nonneg:
  assumes "\<forall>v\<in>set vs. 0 \<le> v" and "m \<le> length vs"
  shows "0 \<le> chosen_sum vs bs m"
  using assms(2)
proof (induction m)
  case 0
  show ?case by (simp add: chosen_sum_0)
next
  case (Suc m)
  then have "vs ! m \<in> set vs" by simp
  with assms(1) have "0 \<le> vs ! m" by blast
  with Suc show ?case by (simp add: chosen_sum_Suc)
qed

lemma chosen_sum_append:
  assumes "m \<le> length bs"
  shows "chosen_sum vs (bs @ [b]) m = chosen_sum vs bs m"
  using assms
proof (induction m)
  case 0
  show ?case by (simp add: chosen_sum_0)
next
  case (Suc m)
  then show ?case by (simp add: chosen_sum_Suc nth_append)
qed

lemma set_choices: "set (List.n_lists m [False, True]) = {bs. length bs = m}"
  by (auto simp: set_n_lists)

lemma in_box_in_table:
  assumes "in_box n j k c" and "n \<le> 500" and "j \<le> 100" and "k \<le> 100"
  shows "in_table c"
  using assms by (cases c) (auto simp: in_box_def in_table_def)

lemma succs_box:
  assumes box: "in_box n j k (x, y, z)" and n: "n \<le> 500"
    and len: "length ps = nat n" "length cs = nat n"
    and nonneg: "\<forall>p\<in>set ps. 0 \<le> p" "\<forall>c\<in>set cs. 0 \<le> c"
    and fit: "sums_fit j k ps cs"
  shows "succs n j k ps cs (x, y, z) =
     (if x < n then
        insert (x + 1, y, z)
          (if y + ps ! nat x \<le> j \<and> z + cs ! nat x \<le> k
           then {(x + 1, y + ps ! nat x, z + cs ! nat x)} else {})
      else {})"
proof -
  from box n have x1: "int_add x 1 = x + 1"
    by (intro int_add_small) (auto simp: in_box_def)
  show ?thesis
  proof (cases "x < n")
    case False
    with x1 show ?thesis by (simp add: succs_def pushed_def skip_cell_def)
  next
    case True
    with box len have "ps ! nat x \<in> set ps" and "cs ! nat x \<in> set cs"
      by (auto simp: in_box_def)
    with nonneg fit have p: "0 \<le> ps ! nat x" "j + ps ! nat x \<le> INT_MAX"
      and c: "0 \<le> cs ! nat x" "k + cs ! nat x \<le> INT_MAX"
      by (auto simp: sums_fit_def)
    from box p have y1: "int_add y (ps ! nat x) = y + ps ! nat x"
      by (intro int_add_small) (auto simp: in_box_def)
    from box c have z1: "int_add z (cs ! nat x) = z + cs ! nat x"
      by (intro int_add_small) (auto simp: in_box_def)
    from True x1 y1 z1 show ?thesis
      by (auto simp: succs_def pushed_def skip_cell_def buy_cells_def buy_cell_def within_def)
  qed
qed

lemma box_region:
  assumes n: "n \<le> 500" and jk: "j \<le> 100" "k \<le> 100"
    and len: "length ps = nat n" "length cs = nat n"
    and nonneg: "\<forall>p\<in>set ps. 0 \<le> p" "\<forall>c\<in>set cs. 0 \<le> c"
    and fit: "sums_fit j k ps cs"
  shows "region_ok n j k ps cs {c. in_box n j k c}"
  unfolding region_ok_def
proof (intro ballI conjI)
  fix c assume "c \<in> {c. in_box n j k c}"
  then have box: "in_box n j k c" by simp
  from in_box_in_table [OF box n jk] show "in_table c" .
  obtain x y z where c: "c = (x, y, z)" by (cases c) auto
  from box c len have "x < n \<Longrightarrow> ps ! nat x \<in> set ps \<and> cs ! nat x \<in> set cs"
    by (auto simp: in_box_def)
  with nonneg have "x < n \<Longrightarrow> 0 \<le> ps ! nat x \<and> 0 \<le> cs ! nat x" by blast
  with box c show "succs n j k ps cs c \<subseteq> {c. in_box n j k c}"
    using succs_box [OF box [unfolded c] n len nonneg fit]
    by (auto simp: in_box_def split: if_splits)
qed

lemma walk_reaches:
  assumes n: "0 \<le> n" "n \<le> 500"
    and len: "length ps = nat n" "length cs = nat n"
    and nonneg: "\<forall>p\<in>set ps. 0 \<le> p" "\<forall>c\<in>set cs. 0 \<le> c"
    and fit: "sums_fit j k ps cs"
    and adm: "admissible n j k ps cs bs"
    and m: "m \<le> nat n"
  shows "(edge n j k ps cs)\<^sup>*\<^sup>* (0, 0, 0) (walk ps cs bs m)"
  using m
proof (induction m)
  case 0
  show ?case by (simp add: walk_def chosen_sum_0)
next
  case (Suc m)
  then have r: "(edge n j k ps cs)\<^sup>*\<^sup>* (0, 0, 0) (walk ps cs bs m)" by simp
  from Suc.prems adm have le: "chosen_sum ps bs m \<le> j" "chosen_sum cs bs m \<le> k"
    "chosen_sum ps bs (Suc m) \<le> j" "chosen_sum cs bs (Suc m) \<le> k"
    by (auto simp: admissible_def)
  from Suc.prems len have "0 \<le> chosen_sum ps bs m" "0 \<le> chosen_sum cs bs m"
    using chosen_sum_nonneg [OF nonneg(1), of m bs] chosen_sum_nonneg [OF nonneg(2), of m bs]
    by auto
  with le Suc.prems have box: "in_box n j k (int m, chosen_sum ps bs m, chosen_sum cs bs m)"
    by (auto simp: in_box_def)
  from Suc.prems have lt: "int m < n" by simp
  have "walk ps cs bs (Suc m) \<in> succs n j k ps cs (int m, chosen_sum ps bs m, chosen_sum cs bs m)"
    using le lt unfolding succs_box [OF box n(2) len nonneg fit]
    by (auto simp: walk_def chosen_sum_Suc)
  then have "edge n j k ps cs (walk ps cs bs m) (walk ps cs bs (Suc m))"
    by (simp add: edge_def walk_def)
  with r show ?case by (rule rtranclp.rtrancl_into_rtrancl)
qed

lemma reaches_walk:
  assumes n: "0 \<le> n" "n \<le> 500" and jk: "0 \<le> j" "0 \<le> k"
    and len: "length ps = nat n" "length cs = nat n"
    and nonneg: "\<forall>p\<in>set ps. 0 \<le> p" "\<forall>c\<in>set cs. 0 \<le> c"
    and fit: "sums_fit j k ps cs"
    and r: "(edge n j k ps cs)\<^sup>*\<^sup>* (0, 0, 0) c"
  shows "\<exists>bs. c = walk ps cs bs (length bs) \<and> in_box n j k c
     \<and> (\<forall>m\<le>length bs. chosen_sum ps bs m \<le> j \<and> chosen_sum cs bs m \<le> k)"
  using r
proof (induction rule: rtranclp_induct)
  case base
  have "(0, 0, 0) = walk ps cs [] (length ([] :: bool list))"
    by (simp add: walk_def chosen_sum_0)
  moreover from n jk have "in_box n j k (0, 0, 0)" by (simp add: in_box_def)
  moreover from jk have "\<forall>m\<le>length ([] :: bool list). chosen_sum ps [] m \<le> j \<and> chosen_sum cs [] m \<le> k"
    by (simp add: chosen_sum_0)
  ultimately show ?case by blast
next
  case (step c c')
  then obtain bs where bs: "c = walk ps cs bs (length bs)" "in_box n j k c"
    "\<forall>m\<le>length bs. chosen_sum ps bs m \<le> j \<and> chosen_sum cs bs m \<le> k" by blast
  let ?x = "int (length bs)" and ?y = "chosen_sum ps bs (length bs)"
    and ?z = "chosen_sum cs bs (length bs)"
  from bs have box: "in_box n j k (?x, ?y, ?z)" by (simp add: walk_def)
  from step.hyps(2) bs(1) have "c' \<in> succs n j k ps cs (?x, ?y, ?z)"
    by (simp add: edge_def walk_def)
  then have c': "?x < n" "c' = (?x + 1, ?y, ?z)
      \<or> (c' = (?x + 1, ?y + ps ! length bs, ?z + cs ! length bs)
         \<and> ?y + ps ! length bs \<le> j \<and> ?z + cs ! length bs \<le> k)"
    unfolding succs_box [OF box n(2) len nonneg fit]
    by (auto split: if_splits)
  from c'(1) len have "ps ! length bs \<in> set ps" "cs ! length bs \<in> set cs" by auto
  with nonneg have pos: "0 \<le> ps ! length bs" "0 \<le> cs ! length bs" by auto
  from c'(2) obtain b where b: "c' = (?x + 1, ?y + (if b then ps ! length bs else 0),
      ?z + (if b then cs ! length bs else 0))"
    "?y + (if b then ps ! length bs else 0) \<le> j" "?z + (if b then cs ! length bs else 0) \<le> k"
  proof (elim disjE conjE)
    assume "c' = (?x + 1, ?y, ?z)"
    with bs(3) that [of False] show thesis by simp
  next
    assume "c' = (?x + 1, ?y + ps ! length bs, ?z + cs ! length bs)"
      "?y + ps ! length bs \<le> j" "?z + cs ! length bs \<le> k"
    with that [of True] show thesis by simp
  qed
  have suc: "chosen_sum ps (bs @ [b]) (Suc (length bs)) = ?y + (if b then ps ! length bs else 0)"
    "chosen_sum cs (bs @ [b]) (Suc (length bs)) = ?z + (if b then cs ! length bs else 0)"
    by (simp_all add: chosen_sum_Suc chosen_sum_append nth_append)
  from b(1) have eq: "c' = walk ps cs (bs @ [b]) (length (bs @ [b]))"
    unfolding walk_def using suc by simp
  from b(2,3) have top: "chosen_sum ps (bs @ [b]) (Suc (length bs)) \<le> j"
    "chosen_sum cs (bs @ [b]) (Suc (length bs)) \<le> k"
    using suc by simp_all
  have all: "\<forall>m\<le>length (bs @ [b]). chosen_sum ps (bs @ [b]) m \<le> j \<and> chosen_sum cs (bs @ [b]) m \<le> k"
  proof (intro allI impI)
    fix m assume "m \<le> length (bs @ [b])"
    then consider "m \<le> length bs" | "m = Suc (length bs)" by fastforce
    then show "chosen_sum ps (bs @ [b]) m \<le> j \<and> chosen_sum cs (bs @ [b]) m \<le> k"
    proof cases
      case 1
      with bs(3) show ?thesis by (simp add: chosen_sum_append)
    next
      case 2
      with top show ?thesis by simp
    qed
  qed
  from box c'(1) pos b have "in_box n j k c'"
    by (auto simp: in_box_def)
  with eq all show ?case by blast
qed

lemma reaches_choice:
  assumes n: "0 \<le> n" "n \<le> 500" and jk: "0 \<le> j" "0 \<le> k"
    and len: "length ps = nat n" "length cs = nat n"
    and nonneg: "\<forall>p\<in>set ps. 0 \<le> p" "\<forall>c\<in>set cs. 0 \<le> c"
    and fit: "sums_fit j k ps cs"
  shows "reaches n j k ps cs (0, 0, 0) \<longleftrightarrow> choice_exists n j k ps cs"
proof
  assume "reaches n j k ps cs (0, 0, 0)"
  then have "(edge n j k ps cs)\<^sup>*\<^sup>* (0, 0, 0) (n, j, k)" by (simp add: reaches_def)
  from reaches_walk [OF n jk len nonneg fit this] obtain bs
    where bs: "(n, j, k) = walk ps cs bs (length bs)"
      "\<forall>m\<le>length bs. chosen_sum ps bs m \<le> j \<and> chosen_sum cs bs m \<le> k" by blast
  from bs(1) have l: "length bs = nat n" by (auto simp: walk_def)
  with bs have "admissible n j k ps cs bs"
    by (auto simp: admissible_def walk_def)
  with l show "choice_exists n j k ps cs"
    by (auto simp: choice_exists_def set_choices)
next
  assume "choice_exists n j k ps cs"
  then obtain bs where adm: "admissible n j k ps cs bs"
    by (auto simp: choice_exists_def)
  from walk_reaches [OF n len nonneg fit adm order_refl]
  have "(edge n j k ps cs)\<^sup>*\<^sup>* (0, 0, 0) (walk ps cs bs (nat n))" .
  moreover from adm n have "walk ps cs bs (nat n) = (n, j, k)"
    by (simp add: walk_def admissible_def)
  ultimately show "reaches n j k ps cs (0, 0, 0)" by (simp add: reaches_def)
qed

lemma choice_exists_iff:
  "choice_exists n j k ps cs \<longleftrightarrow> (\<exists>bs. length bs = nat n \<and> admissible n j k ps cs bs)"
  by (auto simp: choice_exists_def set_choices)

section \<open>A call of solve\<close>

lemma push_origin:
  assumes "offset (stack s) = 0"
  shows "\<exists>st. push_state (stack s) 0 0 0 = Inr st \<and> stack_ints st = flat [(0, 0, 0)]"
proof -
  from assms have "stack_ints (stack s) = []" by (simp add: stack_ints_def)
  moreover from assms have "offset (stack s) + 3 \<le> STACK_SLOTS" by simp
  from push_state_abs [OF this, of 0 0 0] obtain st
    where "push_state (stack s) 0 0 0 = Inr st"
      "stack_ints st = flat [(0, 0, 0)] @ stack_ints (stack s)" by blast
  ultimately show ?thesis by simp
qed

lemma search_entry:
  assumes reg: "region_ok n j k ps cs R" and o: "(0, 0, 0) \<in> R"
    and tb: "\<forall>c. in_table c \<longrightarrow> table s c = Unknown"
    and st: "stack_ints st = flat [(0, 0, 0)]"
  shows "search_inv n j k ps cs R (s\<lparr>stack := st\<rparr>) [(0, 0, 0)]"
proof -
  have "table s c \<noteq> BadPath" if "c \<in> R" for c
  proof -
    from reg that have "in_table c" by (auto simp: region_ok_def)
    with tb have "table s c = Unknown" by blast
    then show ?thesis by simp
  qed
  with o st show ?thesis by (simp add: search_inv_def)
qed

lemma solve_region:
  assumes reg: "region_ok n j k ps cs R" and o: "(0, 0, 0) \<in> R"
    and len: "length ps = nat n" "length cs = nat n"
    and off: "offset (stack s) = 0" and tb: "\<forall>c. in_table c \<longrightarrow> table s c = Unknown"
  shows "solve_order ord n j k ps cs s = Inr (reaches n j k ps cs (0, 0, 0))"
proof -
  from push_origin [OF off] obtain st
    where p: "push_state (stack s) 0 0 0 = Inr st" and st: "stack_ints st = flat [(0, 0, 0)]"
    by blast
  from search_loop [OF reg search_entry [OF reg o tb st] len, of ord] p
  show ?thesis by (simp add: solve_order_def bind_err_def)
qed

lemma solve_valid:
  assumes v: "valid_input n j k ps cs s" and fit: "sums_fit j k ps cs"
  shows "solve_order ord n j k ps cs s = Inr (choice_exists n j k ps cs)"
proof -
  from v have n: "0 \<le> n" "n \<le> 500" and jk: "0 \<le> j" "0 \<le> k" and jk': "j \<le> 100" "k \<le> 100"
    and len: "length ps = nat n" "length cs = nat n"
    and nonneg: "\<forall>p\<in>set ps. 0 \<le> p" "\<forall>c\<in>set cs. 0 \<le> c"
    and off: "offset (stack s) = 0" and tb: "\<forall>c. in_table c \<longrightarrow> table s c = Unknown"
    by (simp_all add: valid_input_def)
  have reg: "region_ok n j k ps cs {c. in_box n j k c}"
    by (rule box_region [OF n(2) jk' len nonneg fit])
  from n jk have o: "(0, 0, 0) \<in> {c. in_box n j k c}" by (simp add: in_box_def)
  from solve_region [OF reg o len off tb] reaches_choice [OF n jk len nonneg fit]
  show ?thesis by simp
qed

lemma search_visited_step:
  assumes reg: "region_ok n j k ps cs R" and len: "length ps = nat n" "length cs = nat n"
    and inv: "search_inv n j k ps cs R s cl" and step: "loop_step ord n j k ps cs s s'"
  shows "\<exists>cl'. search_inv n j k ps cs R s' cl'"
proof -
  from step have pos: "0 < offset (stack s)" and b: "loop_body ord n j k ps cs s = Inr (Continue s')"
    by (simp_all add: loop_step_def)
  from pos search_offset [OF inv] obtain c rest where cl: "cl = c # rest"
    by (cases cl) auto
  from search_step [OF reg inv [unfolded cl] len, of ord] b show ?thesis by auto
qed

lemma search_visited:
  assumes reg: "region_ok n j k ps cs R" and o: "(0, 0, 0) \<in> R"
    and len: "length ps = nat n" "length cs = nat n"
    and tb: "\<forall>c. in_table c \<longrightarrow> table s0 c = Unknown"
    and off: "offset (stack s0) = 0"
    and vis: "visited ord n j k ps cs s0 s"
  shows "\<exists>cl. search_inv n j k ps cs R s cl"
proof -
  from vis obtain st where p: "push_state (stack s0) 0 0 0 = Inr st"
    and r: "(loop_step ord n j k ps cs)\<^sup>*\<^sup>* (s0\<lparr>stack := st\<rparr>) s"
    by (auto simp: visited_def)
  from push_origin [OF off] p have st: "stack_ints st = flat [(0, 0, 0)]" by auto
  from r show ?thesis
  proof (induction rule: rtranclp_induct)
    case base
    from search_entry [OF reg o tb st] show ?case by blast
  next
    case (step y z)
    then obtain cl where "search_inv n j k ps cs R y cl" by blast
    from search_visited_step [OF reg len this step.hyps(2)] show ?case .
  qed
qed

lemma shape_visited:
  assumes n: "0 \<le> n" "n \<le> 500" and len: "length ps = nat n" "length cs = nat n"
    and off: "offset (stack s0) = 0"
    and vis: "visited ord n j k ps cs s0 s"
  shows "\<exists>cl. shape_inv n s cl"
proof -
  from vis obtain st where p: "push_state (stack s0) 0 0 0 = Inr st"
    and r: "(loop_step ord n j k ps cs)\<^sup>*\<^sup>* (s0\<lparr>stack := st\<rparr>) s"
    by (auto simp: visited_def)
  from push_origin [OF off] p have st: "stack_ints st = flat [(0, 0, 0)]" by auto
  from r show ?thesis
  proof (induction rule: rtranclp_induct)
    case base
    from st n have "shape_inv n (s0\<lparr>stack := st\<rparr>) [(0, 0, 0)]" by (simp add: shape_inv_def)
    then show ?case by blast
  next
    case (step y z)
    then obtain cl where inv: "shape_inv n y cl" by blast
    from step.hyps(2) have pos: "0 < offset (stack y)"
      and b: "loop_body ord n j k ps cs y = Inr (Continue z)"
      by (simp_all add: loop_step_def)
    from inv pos obtain c rest where cl: "cl = c # rest" by (rule shape_nonempty)
    from shape_step [OF inv [unfolded cl] n(2) len, of ord j k] b show ?case by auto
  qed
qed

lemma shape_solve:
  assumes n: "0 \<le> n" "n \<le> 500" and len: "length ps = nat n" "length cs = nat n"
    and off: "offset (stack s) = 0"
  shows "solve_order ord n j k ps cs s \<in> {Inr True, Inr False, Inl TableOutOfBounds}"
proof -
  from push_origin [OF off] obtain st
    where p: "push_state (stack s) 0 0 0 = Inr st" and st: "stack_ints st = flat [(0, 0, 0)]"
    by blast
  from st n have "shape_inv n (s\<lparr>stack := st\<rparr>) [(0, 0, 0)]" by (simp add: shape_inv_def)
  from shape_loop [OF this n(2) len, of ord j k] p show ?thesis
    by (simp add: solve_order_def bind_err_def)
qed

section \<open>Concrete runs\<close>

lemmas run_defs = solve_def solve_skip_first_def solve_order_def bind_err_def
  dfs_stack_push_def dfs_stack_pop_def push_state_def pop_state_def loop_body_def expand_def
  push_buy_def table_get_def table_set_def array_get_def in_table_def int_add_def int_wrap_def
  initial_globals_def Let_def solve_loop.simps

lemma valid_initial:
  "valid_input 2 3 3 [1, 2] [1, 2] initial_globals"
  by (simp add: valid_input_def initial_globals_def)

lemma fit_small: "sums_fit 3 3 [1, 2] [1, 2]"
  by (simp add: sums_fit_def)

lemma run_small: "solve 2 3 3 [1, 2] [1, 2] initial_globals = Inr True"
  by (simp add: run_defs)

lemma visited_entry:
  "visited BuyThenSkip 2 3 3 [1, 2] [1, 2] initial_globals
     (initial_globals\<lparr>stack := \<lparr>offset = 3, data = (\<lambda>_. 0)\<rparr>\<rparr>)"
proof -
  have "push_state (stack initial_globals) 0 0 0 = Inr \<lparr>offset = 3, data = (\<lambda>_. 0)\<rparr>"
    by (simp add: push_state_def dfs_stack_push_def bind_err_def initial_globals_def
        fun_upd_idem numeral_3_eq_3)
  then show ?thesis by (simp add: visited_def)
qed

lemma valid_overflow3:
  "valid_input 3 2 0 [1, 1, 2147483647] [0, 0, 0] initial_globals"
  by (simp add: valid_input_def initial_globals_def)

lemma run_overflow3:
  "solve 3 2 0 [1, 1, 2147483647] [0, 0, 0] initial_globals = Inl TableOutOfBounds"
  by (simp add: run_defs)

lemma choice_overflow3: "choice_exists 3 2 0 [1, 1, 2147483647] [0, 0, 0]"
  by code_simp

section \<open>The claims\<close>

subsection \<open>C1: the result of solve\<close>

text \<open>
  C1, as stated: for every valid input, \<open>solve\<close> returns true if and only if some 0/1
  choice keeps every running sum within its budget and ends exactly on the targets.
  This fails where a sum leaves the range of \<open>int\<close>: for the prices \<open>1, 1, INT_MAX\<close>
  and the price target \<open>2\<close>, taking the first two items is such a choice, but the sum
  \<open>1 + INT_MAX\<close> wraps to \<open>INT_MIN\<close>, the cell \<open>(3, INT_MIN, 0)\<close> is pushed, and
  reading the table at it ends the run before the target is found.
\<close>

theorem solve_misses_choice_on_overflow:
  "valid_input 3 2 0 [1, 1, 2147483647] [0, 0, 0] initial_globals
   \<and> choice_exists 3 2 0 [1, 1, 2147483647] [0, 0, 0]
   \<and> solve 3 2 0 [1, 1, 2147483647] [0, 0, 0] initial_globals \<noteq> Inr True"
  using valid_overflow3 choice_overflow3 run_overflow3 by simp

text \<open>
  C1, amended: for every valid input in which every budget plus entry is at most
  \<open>INT_MAX\<close>, \<open>solve\<close> returns true if and only if some 0/1 choice for the \<open>n\<close>
  items keeps every running sum of prices at most \<open>j\<close> and of calories at most \<open>k\<close>,
  and has final sums exactly \<open>j\<close> and \<open>k\<close>.
\<close>

theorem solve_iff_choice_exists:
  assumes "valid_input n j k prices calories s" and "sums_fit j k prices calories"
  shows "solve n j k prices calories s = Inr True \<longleftrightarrow> choice_exists n j k prices calories"
  using solve_valid [OF assms, of BuyThenSkip] by (simp add: solve_def)

theorem solve_iff_choice_exists_witness:
  "valid_input 2 3 3 [1, 2] [1, 2] initial_globals \<and> sums_fit 3 3 [1, 2] [1, 2]
   \<and> solve 2 3 3 [1, 2] [1, 2] initial_globals = Inr True
   \<and> choice_exists 2 3 3 [1, 2] [1, 2]"
  using solve_iff_choice_exists [OF valid_initial fit_small] valid_initial fit_small run_small
  by simp

subsection \<open>C2: the loop ends with true or false\<close>

text \<open>
  C2, as stated: for every valid input the loop ends, and \<open>solve\<close> returns true or
  returns false. For the prices \<open>1, INT_MAX\<close> and the price target \<open>2\<close> it does
  neither: the run ends on a read outside the table.
\<close>

theorem solve_neither_true_nor_false:
  "valid_input 2 2 0 [1, 2147483647] [0, 0] initial_globals
   \<and> solve 2 2 0 [1, 2147483647] [0, 0] initial_globals \<noteq> Inr True
   \<and> solve 2 2 0 [1, 2147483647] [0, 0] initial_globals \<noteq> Inr False"
proof -
  have "valid_input 2 2 0 [1, 2147483647] [0, 0] initial_globals"
    by (simp add: valid_input_def initial_globals_def)
  moreover have "solve 2 2 0 [1, 2147483647] [0, 0] initial_globals = Inl TableOutOfBounds"
    by (simp add: run_defs)
  ultimately show ?thesis by simp
qed

text \<open>
  C2, amended: for every valid input in which every budget plus entry is at most
  \<open>INT_MAX\<close>, \<open>solve\<close> returns true or returns false; and every run of the loop body
  that goes on either lowers the number of \<open>Unknown\<close> cells of the table, or keeps the
  table and shortens the stack, so each cell is expanded at most once.
\<close>

theorem solve_returns:
  assumes "valid_input n j k prices calories s" and "sums_fit j k prices calories"
  shows "(solve n j k prices calories s = Inr True \<or> solve n j k prices calories s = Inr False)
       \<and> (\<forall>t t'. loop_step BuyThenSkip n j k prices calories t t' \<longrightarrow>
            card (unknown_cells (table t')) < card (unknown_cells (table t))
            \<or> (table t' = table t \<and> offset (stack t') < offset (stack t)))"
proof -
  from solve_valid [OF assms, of BuyThenSkip]
  have "solve n j k prices calories s = Inr True \<or> solve n j k prices calories s = Inr False"
    by (auto simp: solve_def)
  moreover have "card (unknown_cells (table t')) < card (unknown_cells (table t))
      \<or> (table t' = table t \<and> offset (stack t') < offset (stack t))"
    if "loop_step BuyThenSkip n j k prices calories t t'" for t t'
    using that by (auto simp: loop_step_def dest: loop_body_decreases)
  ultimately show ?thesis by blast
qed

theorem solve_returns_witness:
  "valid_input 2 3 3 [1, 2] [1, 2] initial_globals \<and> sums_fit 3 3 [1, 2] [1, 2]
   \<and> (solve 2 3 3 [1, 2] [1, 2] initial_globals = Inr True
      \<or> solve 2 3 3 [1, 2] [1, 2] initial_globals = Inr False)"
  using solve_returns [OF valid_initial fit_small] valid_initial fit_small by blast

subsection \<open>C3: the stack neither overflows nor underflows\<close>

text \<open>
  C3: for every valid input, no push of a call of \<open>solve\<close> finds the stack full and
  no pop finds it empty: \<open>solve\<close> ends with neither error, and whenever the loop
  condition is tested the stack has room for the pushes of the next run of the body
  (its offset plus 3 is within the \<open>3 * MAX_DEPTH_STACK\<close> slots, and the body pops three
  integers before it pushes at most six) and, if it is not empty, holds at least the
  three integers that the body pops.
\<close>

theorem stack_within_capacity:
  assumes "valid_input n j k prices calories s0"
  shows "solve n j k prices calories s0 \<noteq> Inl StackOverflow
       \<and> solve n j k prices calories s0 \<noteq> Inl StackUnderflow
       \<and> (\<forall>s. visited BuyThenSkip n j k prices calories s0 s \<longrightarrow>
            offset (stack s) + 3 \<le> STACK_SLOTS \<and> (0 < offset (stack s) \<longrightarrow> 3 \<le> offset (stack s)))"
proof -
  from assms have n: "0 \<le> n" "n \<le> 500"
    and len: "length prices = nat n" "length calories = nat n"
    and off: "offset (stack s0) = 0"
    by (simp_all add: valid_input_def)
  from shape_solve [OF n len off, of BuyThenSkip j k]
  have res: "solve n j k prices calories s0 \<noteq> Inl StackOverflow
      \<and> solve n j k prices calories s0 \<noteq> Inl StackUnderflow"
    by (auto simp: solve_def)
  have "offset (stack s) + 3 \<le> STACK_SLOTS \<and> (0 < offset (stack s) \<longrightarrow> 3 \<le> offset (stack s))"
    if "visited BuyThenSkip n j k prices calories s0 s" for s
  proof -
    from shape_visited [OF n len off that] obtain cl where inv: "shape_inv n s cl" by blast
    then have "levels_ok cl" and "\<forall>c\<in>set cl. fst c \<le> n" by (simp_all add: shape_inv_def)
    from levels_ok_length [OF this n(1)] n(2) have "length cl \<le> 1001" by simp
    with shape_offset [OF inv] show ?thesis by (cases cl) auto
  qed
  with res show ?thesis by blast
qed

theorem stack_within_capacity_witness:
  "valid_input 2 3 3 [1, 2] [1, 2] initial_globals
   \<and> solve 2 3 3 [1, 2] [1, 2] initial_globals \<noteq> Inl StackOverflow
   \<and> solve 2 3 3 [1, 2] [1, 2] initial_globals \<noteq> Inl StackUnderflow
   \<and> visited BuyThenSkip 2 3 3 [1, 2] [1, 2] initial_globals
       (initial_globals\<lparr>stack := \<lparr>offset = 3, data = (\<lambda>_. 0)\<rparr>\<rparr>)
   \<and> offset (stack (initial_globals\<lparr>stack := \<lparr>offset = 3, data = (\<lambda>_. 0)\<rparr>\<rparr>)) + 3 \<le> STACK_SLOTS"
proof -
  note v = visited_entry
  with stack_within_capacity [OF valid_initial] valid_initial show ?thesis by blast
qed

subsection \<open>C4: the popped states are within the table\<close>

text \<open>
  C4, as stated: for every valid input, every state popped is within
  \<open>0..n\<close>, \<open>0..j\<close>, \<open>0..k\<close>, so every access to the table is within its bounds. For
  the prices \<open>1, 1, INT_MAX\<close> and the price target \<open>2\<close> the state
  \<open>(3, INT_MIN, 0)\<close> is popped, and the table is read outside its bounds.
\<close>

theorem table_read_out_of_bounds_on_overflow:
  "valid_input 3 2 0 [1, 1, 2147483647] [0, 0, 0] initial_globals
   \<and> solve 3 2 0 [1, 1, 2147483647] [0, 0, 0] initial_globals = Inl TableOutOfBounds"
  using valid_overflow3 run_overflow3 by simp

text \<open>
  C4, amended: for every valid input in which every budget plus entry is at most
  \<open>INT_MAX\<close>, no access to the table is out of bounds, and whenever the loop condition
  holds the state \<open>(x, y, z)\<close> that the body pops has \<open>0 \<le> x \<le> n\<close>, \<open>0 \<le> y \<le> j\<close>
  and \<open>0 \<le> z \<le> k\<close>, and is a cell of the table.
\<close>

theorem popped_cells_in_bounds:
  assumes "valid_input n j k prices calories s0" and "sums_fit j k prices calories"
  shows "solve n j k prices calories s0 \<noteq> Inl TableOutOfBounds
       \<and> (\<forall>s. visited BuyThenSkip n j k prices calories s0 s \<and> 0 < offset (stack s) \<longrightarrow>
            (\<exists>c st. pop_state (stack s) = Inr (c, st) \<and> in_box n j k c \<and> in_table c))"
proof -
  from assms(1) have n: "0 \<le> n" "n \<le> 500" and jk: "0 \<le> j" "0 \<le> k" and jk': "j \<le> 100" "k \<le> 100"
    and len: "length prices = nat n" "length calories = nat n"
    and nonneg: "\<forall>p\<in>set prices. 0 \<le> p" "\<forall>c\<in>set calories. 0 \<le> c"
    and off: "offset (stack s0) = 0" and tb: "\<forall>c. in_table c \<longrightarrow> table s0 c = Unknown"
    by (simp_all add: valid_input_def)
  have reg: "region_ok n j k prices calories {c. in_box n j k c}"
    by (rule box_region [OF n(2) jk' len nonneg assms(2)])
  from n jk have o: "(0, 0, 0) \<in> {c. in_box n j k c}" by (simp add: in_box_def)
  from solve_valid [OF assms, of BuyThenSkip]
  have res: "solve n j k prices calories s0 \<noteq> Inl TableOutOfBounds" by (simp add: solve_def)
  have "\<exists>c st. pop_state (stack s) = Inr (c, st) \<and> in_box n j k c \<and> in_table c"
    if vis: "visited BuyThenSkip n j k prices calories s0 s" and pos: "0 < offset (stack s)" for s
  proof -
    from search_visited [OF reg o len tb off vis] obtain cl
      where inv: "search_inv n j k prices calories {c. in_box n j k c} s cl" by blast
    from pos search_offset [OF inv] obtain c rest where cl: "cl = c # rest" by (cases cl) auto
    from inv cl have st: "stack_ints (stack s) = flat (c # rest)" and box: "in_box n j k c"
      by (simp_all add: search_inv_def)
    from search_capacity [OF reg inv [unfolded cl]] have "3 * length rest + 3 \<le> STACK_SLOTS" by simp
    from pop_top [OF st this] obtain st' where "pop_state (stack s) = Inr (c, st')" by blast
    with box in_box_in_table [OF box n(2) jk'] show ?thesis by blast
  qed
  with res show ?thesis by blast
qed

theorem popped_cells_in_bounds_witness:
  "valid_input 2 3 3 [1, 2] [1, 2] initial_globals \<and> sums_fit 3 3 [1, 2] [1, 2]
   \<and> solve 2 3 3 [1, 2] [1, 2] initial_globals \<noteq> Inl TableOutOfBounds
   \<and> visited BuyThenSkip 2 3 3 [1, 2] [1, 2] initial_globals
       (initial_globals\<lparr>stack := \<lparr>offset = 3, data = (\<lambda>_. 0)\<rparr>\<rparr>)
   \<and> (\<exists>c st. pop_state (stack (initial_globals\<lparr>stack := \<lparr>offset = 3, data = (\<lambda>_. 0)\<rparr>\<rparr>)) = Inr (c, st)
        \<and> in_box 2 3 3 c \<and> in_table c)"
proof -
  note v = visited_entry
  have "0 < offset (stack (initial_globals\<lparr>stack := \<lparr>offset = 3, data = (\<lambda>_. 0)\<rparr>\<rparr>))"
    by simp
  with popped_cells_in_bounds [OF valid_initial fit_small] v valid_initial fit_small
  show ?thesis by blast
qed

subsection \<open>C5: a marked state is never expanded again\<close>

text \<open>
  C5: a cell that is marked \<open>BadPath\<close> stays marked through every later run of the
  loop body (so it is marked at most once and never set back to \<open>Unknown\<close>); and when
  the body pops a marked cell that is not the target, it goes on with the stack as the
  pops left it and the table unchanged: nothing is pushed.
\<close>

theorem marked_cell_never_reexpanded:
  "((loop_step ord n j k prices calories)\<^sup>*\<^sup>* s s' \<and> table s c = BadPath
      \<longrightarrow> table s' c = BadPath)
   \<and> (pop_state (stack s) = Inr (c, st) \<and> c \<noteq> (n, j, k) \<and> in_table c \<and> table s c = BadPath
      \<longrightarrow> loop_body ord n j k prices calories s = Inr (Continue (s\<lparr>stack := st\<rparr>)))"
proof (intro conjI impI)
  assume "(loop_step ord n j k prices calories)\<^sup>*\<^sup>* s s' \<and> table s c = BadPath"
  then show "table s' c = BadPath" by (auto intro: loop_steps_table_mono)
next
  assume "pop_state (stack s) = Inr (c, st) \<and> c \<noteq> (n, j, k) \<and> in_table c \<and> table s c = BadPath"
  then show "loop_body ord n j k prices calories s = Inr (Continue (s\<lparr>stack := st\<rparr>))"
    by (cases c) (auto simp: loop_body_def bind_err_def table_get_def)
qed

theorem marked_cell_never_reexpanded_witness:
  "table marked_origin (0, 0, 0) = BadPath
   \<and> loop_body BuyThenSkip 1 1 1 [1] [1] marked_origin
       = Inr (Continue (marked_origin\<lparr>stack := \<lparr>offset = 0, data = (\<lambda>_. 0)\<rparr>\<rparr>))
   \<and> table (marked_origin\<lparr>stack := \<lparr>offset = 0, data = (\<lambda>_. 0)\<rparr>\<rparr>) (0, 0, 0) = BadPath"
proof -
  let ?st = "\<lparr>offset = 0, data = (\<lambda>_. 0)\<rparr>"
  have pop: "pop_state (stack marked_origin) = Inr ((0, 0, 0), ?st)"
    by (simp add: pop_state_def dfs_stack_pop_def bind_err_def marked_origin_def)
  have tb: "table marked_origin (0, 0, 0) = BadPath" by (simp add: marked_origin_def)
  have "in_table (0, 0, 0)" by (simp add: in_table_def)
  with pop tb
    marked_cell_never_reexpanded [of BuyThenSkip 1 1 1 "[1]" "[1]" marked_origin
      "marked_origin\<lparr>stack := ?st\<rparr>" "(0, 0, 0)" ?st]
  have body: "loop_body BuyThenSkip 1 1 1 [1] [1] marked_origin
      = Inr (Continue (marked_origin\<lparr>stack := ?st\<rparr>))"
    by simp
  have "0 < offset (stack marked_origin)" by (simp add: marked_origin_def)
  with body have "loop_step BuyThenSkip 1 1 1 [1] [1] marked_origin (marked_origin\<lparr>stack := ?st\<rparr>)"
    by (simp add: loop_step_def)
  then have "(loop_step BuyThenSkip 1 1 1 [1] [1])\<^sup>*\<^sup>* marked_origin (marked_origin\<lparr>stack := ?st\<rparr>)"
    by (rule r_into_rtranclp)
  with tb
    marked_cell_never_reexpanded [of BuyThenSkip 1 1 1 "[1]" "[1]" marked_origin
      "marked_origin\<lparr>stack := ?st\<rparr>" "(0, 0, 0)" ?st]
  have "table (marked_origin\<lparr>stack := ?st\<rparr>) (0, 0, 0) = BadPath" by blast
  with tb body show ?thesis by blast
qed

subsection \<open>C6: the order of the two pushes\<close>

text \<open>
  C6, as stated: for every valid input, the variant that pushes Skip before Buy returns
  what \<open>solve\<close> returns. For the prices \<open>1, INT_MAX\<close> and the price target \<open>1\<close>,
  \<open>solve\<close> pops the target before the wrapped cell \<open>(2, INT_MIN, 0)\<close> and returns
  true; the variant pops the wrapped cell first and reads the table outside its bounds.
\<close>

theorem push_order_matters_on_overflow:
  "valid_input 2 1 0 [1, 2147483647] [0, 0] initial_globals
   \<and> solve 2 1 0 [1, 2147483647] [0, 0] initial_globals = Inr True
   \<and> solve_skip_first 2 1 0 [1, 2147483647] [0, 0] initial_globals = Inl TableOutOfBounds"
proof -
  have "valid_input 2 1 0 [1, 2147483647] [0, 0] initial_globals"
    by (simp add: valid_input_def initial_globals_def)
  moreover have "solve 2 1 0 [1, 2147483647] [0, 0] initial_globals = Inr True"
    by (simp add: run_defs)
  moreover have "solve_skip_first 2 1 0 [1, 2147483647] [0, 0] initial_globals = Inl TableOutOfBounds"
    by (simp add: run_defs)
  ultimately show ?thesis by simp
qed

text \<open>
  C6, amended: for every valid input in which every budget plus entry is at most
  \<open>INT_MAX\<close>, the variant that pushes Skip before Buy returns what \<open>solve\<close> returns.
\<close>

theorem push_order_irrelevant:
  assumes "valid_input n j k prices calories s" and "sums_fit j k prices calories"
  shows "solve_skip_first n j k prices calories s = solve n j k prices calories s"
  using solve_valid [OF assms, of BuyThenSkip] solve_valid [OF assms, of SkipThenBuy]
  by (simp add: solve_def solve_skip_first_def)

theorem push_order_irrelevant_witness:
  "valid_input 2 3 3 [1, 2] [1, 2] initial_globals \<and> sums_fit 3 3 [1, 2] [1, 2]
   \<and> solve_skip_first 2 3 3 [1, 2] [1, 2] initial_globals = Inr True
   \<and> solve 2 3 3 [1, 2] [1, 2] initial_globals = Inr True"
  using push_order_irrelevant [OF valid_initial fit_small] valid_initial fit_small run_small
  by simp

subsection \<open>C7: no items\<close>

lemma origin_region: "region_ok 0 j k ps cs {(0, 0, 0)}"
  by (simp add: region_ok_def in_table_def succs_def pushed_def skip_cell_def int_add_def
      int_wrap_def)

lemma origin_reaches: "reaches 0 j k ps cs (0, 0, 0) \<longleftrightarrow> j = 0 \<and> k = 0"
proof
  assume r: "reaches 0 j k ps cs (0, 0, 0)"
  show "j = 0 \<and> k = 0"
  proof (rule ccontr)
    assume "\<not> (j = 0 \<and> k = 0)"
    then have "(0, 0, 0) \<noteq> (0, j, k)" by auto
    from reaches_cases [OF r this] show False
      by (simp add: succs_def pushed_def skip_cell_def int_add_def int_wrap_def)
  qed
next
  assume "j = 0 \<and> k = 0"
  with reaches_target [of 0 0 0 ps cs] show "reaches 0 j k ps cs (0, 0, 0)" by simp
qed

text \<open>
  C7: for \<open>n = 0\<close> and any valid targets, \<open>solve\<close> returns true if and only if
  \<open>j = 0\<close> and \<open>k = 0\<close>.
\<close>

theorem no_items:
  assumes "valid_input 0 j k prices calories s"
  shows "solve 0 j k prices calories s = Inr True \<longleftrightarrow> j = 0 \<and> k = 0"
proof -
  from assms have len: "length prices = nat 0" "length calories = nat 0"
    and off: "offset (stack s) = 0" and tb: "\<forall>c. in_table c \<longrightarrow> table s c = Unknown"
    by (simp_all add: valid_input_def)
  have "(0, 0, 0) \<in> {(0, 0, 0) :: cell}" by simp
  from solve_region [OF origin_region this len off tb, where ord = BuyThenSkip and j = j and k = k]
    origin_reaches [of j k prices calories]
  show ?thesis by (simp add: solve_def)
qed

theorem no_items_witness:
  "valid_input 0 0 0 [] [] initial_globals \<and> solve 0 0 0 [] [] initial_globals = Inr True"
proof -
  have v: "valid_input 0 0 0 [] [] initial_globals"
    by (simp add: valid_input_def initial_globals_def)
  with no_items [OF v] show ?thesis by simp
qed

subsection \<open>C8: free items\<close>

lemma free_region:
  assumes n: "n \<le> 500" and len: "length ps = nat n" "length cs = nat n"
    and zero: "\<forall>p\<in>set ps. p = 0" "\<forall>c\<in>set cs. c = 0"
  shows "region_ok n j k ps cs (free_cells n)"
  unfolding region_ok_def
proof (intro ballI conjI)
  fix c assume "c \<in> free_cells n"
  then obtain x where c: "c = (x, 0, 0)" and x: "0 \<le> x" "x \<le> n" by (auto simp: free_cells_def)
  from c x n show tab: "in_table c" by (simp add: in_table_def)
  show "succs n j k ps cs c \<subseteq> free_cells n"
  proof
    fix c' assume c': "c' \<in> succs n j k ps cs c"
    from succs_level [OF tab c'] c have lv: "fst c' = x + 1" "x + 1 \<le> n" by simp_all
    with x len have "ps ! nat x \<in> set ps" "cs ! nat x \<in> set cs" by auto
    with zero have "ps ! nat x = 0" "cs ! nat x = 0" by auto
    with c have "buy_cell ps cs c = skip_cell c"
      by (simp add: buy_cell_def skip_cell_def int_add_def int_wrap_def)
    with c' have "c' = skip_cell c"
      by (auto simp: succs_def pushed_def buy_cells_def split: if_splits)
    with c lv x show "c' \<in> free_cells n"
      by (auto simp: free_cells_def skip_cell_def)
  qed
qed

lemma skip_reaches:
  assumes "n \<le> 500" and "m \<le> nat n"
  shows "(edge n j k ps cs)\<^sup>*\<^sup>* (0, 0, 0) (int m, 0, 0)"
  using assms(2)
proof (induction m)
  case 0
  show ?case by simp
next
  case (Suc m)
  then have r: "(edge n j k ps cs)\<^sup>*\<^sup>* (0, 0, 0) (int m, 0, 0)" by simp
  from Suc.prems assms(1) have "in_table (int m, 0, 0)" by (simp add: in_table_def)
  from skip_cell_level [OF this] have "skip_cell (int m, 0, 0) = (int m + 1, 0, 0)"
    by (simp add: skip_cell_def)
  with Suc.prems have "edge n j k ps cs (int m, 0, 0) (int (Suc m), 0, 0)"
    by (auto simp: edge_def succs_def pushed_def)
  with r show ?case by (rule rtranclp.rtrancl_into_rtrancl)
qed

text \<open>
  C8: for every \<open>n\<close> within the capacity and every list of \<open>n\<close> items that all have
  price 0 and calories 0, \<open>solve\<close> returns true if and only if \<open>j = 0\<close> and \<open>k = 0\<close>,
  whatever \<open>n\<close> is.
\<close>

theorem free_items:
  assumes n: "0 \<le> n" "n \<le> MAX_DEPTH_X - 1"
    and len: "length prices = nat n" "length calories = nat n"
    and zero: "\<forall>p\<in>set prices. p = 0" "\<forall>c\<in>set calories. c = 0"
    and off: "offset (stack s) = 0" and tb: "\<forall>c. in_table c \<longrightarrow> table s c = Unknown"
  shows "solve n j k prices calories s = Inr True \<longleftrightarrow> j = 0 \<and> k = 0"
proof -
  from n have n': "n \<le> 500" by simp
  have reg: "region_ok n j k prices calories (free_cells n)"
    by (rule free_region [OF n' len zero])
  from n have o: "(0, 0, 0) \<in> free_cells n" by (simp add: free_cells_def)
  have "reaches n j k prices calories (0, 0, 0) \<longleftrightarrow> j = 0 \<and> k = 0"
  proof
    assume "reaches n j k prices calories (0, 0, 0)"
    then have "(edge n j k prices calories)\<^sup>*\<^sup>* (0, 0, 0) (n, j, k)" by (simp add: reaches_def)
    from region_closed [OF reg this o] show "j = 0 \<and> k = 0" by (simp add: free_cells_def)
  next
    assume "j = 0 \<and> k = 0"
    with skip_reaches [OF n' order_refl, where j = j and k = k and ps = prices and cs = calories] n
    show "reaches n j k prices calories (0, 0, 0)" by (simp add: reaches_def)
  qed
  with solve_region [OF reg o len off tb, where ord = BuyThenSkip] show ?thesis by (simp add: solve_def)
qed

theorem free_items_witness:
  "solve 2 0 0 [0, 0] [0, 0] initial_globals = Inr True
   \<and> solve 2 1 0 [0, 0] [0, 0] initial_globals \<noteq> Inr True"
proof -
  have a: "offset (stack initial_globals) = 0" "\<forall>c. in_table c \<longrightarrow> table initial_globals c = Unknown"
    by (simp_all add: initial_globals_def)
  have "(0::int) \<le> 2" "(2::int) \<le> MAX_DEPTH_X - 1" "length [0, 0 :: int] = nat 2"
    "\<forall>p\<in>set [0, 0 :: int]. p = 0" by simp_all
  with a free_items [of 2 "[0, 0]" "[0, 0]" initial_globals 0 0]
    free_items [of 2 "[0, 0]" "[0, 0]" initial_globals 1 0]
  show ?thesis by simp
qed

subsection \<open>C9: the first scenario\<close>

text \<open>
  C9: for \<open>n = 3\<close>, \<open>j = 10\<close>, \<open>k = 10\<close> and the items \<open>(5, 5)\<close>, \<open>(5, 5)\<close>,
  \<open>(1, 1)\<close>, with the table all \<open>Unknown\<close> and the stack empty at entry, \<open>solve\<close>
  returns true.
\<close>

theorem scenario_yes:
  assumes "valid_input 3 10 10 [5, 5, 1] [5, 5, 1] s"
  shows "solve 3 10 10 [5, 5, 1] [5, 5, 1] s = Inr True"
proof -
  have fit: "sums_fit 10 10 [5, 5, 1] [5, 5, 1]" by (simp add: sums_fit_def)
  have "choice_exists 3 10 10 [5, 5, 1] [5, 5, 1]" by code_simp
  with solve_valid [OF assms fit, of BuyThenSkip] show ?thesis by (simp add: solve_def)
qed

theorem scenario_yes_witness:
  "valid_input 3 10 10 [5, 5, 1] [5, 5, 1] initial_globals
   \<and> solve 3 10 10 [5, 5, 1] [5, 5, 1] initial_globals = Inr True"
proof -
  have v: "valid_input 3 10 10 [5, 5, 1] [5, 5, 1] initial_globals"
    by (simp add: valid_input_def initial_globals_def)
  with scenario_yes [OF v] show ?thesis by simp
qed

subsection \<open>C10: the second scenario\<close>

text \<open>
  C10: for \<open>n = 2\<close>, \<open>j = 3\<close>, \<open>k = 3\<close> and the items \<open>(2, 2)\<close>, \<open>(2, 2)\<close>, with
  the table all \<open>Unknown\<close> and the stack empty at entry, \<open>solve\<close> returns false.
\<close>

theorem scenario_no:
  assumes "valid_input 2 3 3 [2, 2] [2, 2] s"
  shows "solve 2 3 3 [2, 2] [2, 2] s = Inr False"
proof -
  have fit: "sums_fit 3 3 [2, 2] [2, 2]" by (simp add: sums_fit_def)
  have "\<not> choice_exists 2 3 3 [2, 2] [2, 2]" by code_simp
  with solve_valid [OF assms fit, of BuyThenSkip] show ?thesis by (simp add: solve_def)
qed

theorem scenario_no_witness:
  "valid_input 2 3 3 [2, 2] [2, 2] initial_globals
   \<and> solve 2 3 3 [2, 2] [2, 2] initial_globals = Inr False"
proof -
  have v: "valid_input 2 3 3 [2, 2] [2, 2] initial_globals"
    by (simp add: valid_input_def initial_globals_def)
  with scenario_no [OF v] show ?thesis by simp
qed

end
